theory Spec2Isabelle
  imports Main "HOL-Library.Word" "HOL-Library.AList"
begin

unbundle bit_operations_syntax

section \<open>Machine types and error values\<close>

type_synonym byte = "8 word"
type_synonym uint64 = "64 word"

text \<open>
  The error values of multiplex.go. \<open>ErrMessageSizeTooLarge\<close> stands for the anonymous
  \<^verbatim>\<open>fmt.Errorf("message size too large")\<close> of \<open>readNext\<close>; \<open>EOF\<close> and
  \<open>ErrUnexpectedEOF\<close> are the reader's, \<open>ErrOverflow\<close> and \<open>ErrNotMinimal\<close> the
  varint decoder's; \<open>ErrExternal\<close> is an error value of a collaborator (the memory
  manager's reservation error, the context's \<^verbatim>\<open>ctx.Err()\<close>).
\<close>

datatype error =
    ErrShutdown | ErrTwoInitiators | ErrInvalidState | errTimeout
  | ErrStreamClosed | ErrStreamReset | ErrMessageSizeTooLarge
  | EOF | ErrUnexpectedEOF | ErrOverflow | ErrNotMinimal
  | ErrExternal nat

text \<open>The frame tags (\<^verbatim>\<open>+1 for initiator\<close>).\<close>

definition newStreamTag :: uint64 where "newStreamTag = 0"
definition messageTag :: uint64 where "messageTag = 2"
definition closeTag :: uint64 where "closeTag = 4"
definition resetTag :: uint64 where "resetTag = 6"

section \<open>The varint codec\<close>

text \<open>
  \<^verbatim>\<open>binary.PutUvarint(buf, x)\<close> of the Go library, as \<open>sendMsg\<close> calls it: the loop
  writes \<^verbatim>\<open>byte(x) | 0x80\<close> while \<^verbatim>\<open>x >= 0x80\<close>, then the last byte, and returns the
  number of bytes written. An index beyond the buffer panics: \<open>None\<close>.
\<close>

function PutUvarint_loop :: "byte list \<Rightarrow> nat \<Rightarrow> uint64 \<Rightarrow> (byte list \<times> nat) option" where
  "PutUvarint_loop buf i x =
     (if 0x80 \<le> x then
        (if i < length buf
         then PutUvarint_loop (buf[i := ucast x OR 0x80]) (i + 1) (drop_bit 7 x)
         else None)
      else if i < length buf then Some (buf[i := ucast x], i + 1) else None)"
  by pat_completeness auto
termination
proof (relation "measure (\<lambda>(buf, i, x). unat x)")
  show "wf (measure (\<lambda>(buf, i, x). unat x))" by simp
next
  fix buf :: "byte list" and i :: nat and x :: uint64
  assume "0x80 \<le> x"
  then have "128 \<le> unat x" by (simp add: word_le_nat_alt)
  then have "unat x div 128 < unat x" by simp
  then show "((buf[i := ucast x OR 0x80], i + 1, drop_bit 7 x), (buf, i, x))
      \<in> measure (\<lambda>(buf, i, x). unat x)"
    by (simp add: drop_bit_eq_div unat_div)
qed

declare PutUvarint_loop.simps [simp del]

definition PutUvarint :: "byte list \<Rightarrow> uint64 \<Rightarrow> (byte list \<times> nat) option" where
  "PutUvarint buf x = PutUvarint_loop buf 0 x"

text \<open>The bytes that \<open>PutUvarint\<close> writes for \<open>x\<close>: the varint of \<open>x\<close> on the wire.\<close>

function uvarint :: "uint64 \<Rightarrow> byte list" where
  "uvarint x = (if 0x80 \<le> x then (ucast x OR 0x80) # uvarint (drop_bit 7 x) else [ucast x])"
  by pat_completeness auto
termination
proof (relation "measure unat")
  show "wf (measure (unat :: uint64 \<Rightarrow> nat))" by simp
next
  fix x :: uint64
  assume "0x80 \<le> x"
  then have "128 \<le> unat x" by (simp add: word_le_nat_alt)
  then have "unat x div 128 < unat x" by simp
  then show "(drop_bit 7 x, x) \<in> measure unat"
    by (simp add: drop_bit_eq_div unat_div)
qed

declare uvarint.simps [simp del]

text \<open>
  \<^verbatim>\<open>varint.ReadUvarint(r)\<close> of go-varint, the decoder \<open>readNextHeader\<close> and \<open>readNext\<close>
  call on the buffered reader. The reader is the list of bytes still to come, its end
  the end of the transport. The decoder reads one byte at a time, \<open>s\<close> the shift of the
  byte read (7 per byte): it refuses a ninth byte that announces a tenth and any byte
  after the ninth (\<open>ErrOverflow\<close>: values of 64 bits are not supported), refuses a last
  byte 0 after the first (\<open>ErrNotMinimal\<close>), and reports the end of the input as \<open>EOF\<close>
  before the first byte and as \<open>ErrUnexpectedEOF\<close> after it.
\<close>

definition MaxLenUvarint63 :: nat where "MaxLenUvarint63 = 9"

fun ReadUvarint_loop :: "nat \<Rightarrow> uint64 \<Rightarrow> byte list \<Rightarrow> error + (uint64 \<times> byte list)" where
  "ReadUvarint_loop s x [] = Inl (if s \<noteq> 0 then ErrUnexpectedEOF else EOF)"
| "ReadUvarint_loop s x (b # r) =
     (if (s = 56 \<and> 0x80 \<le> b) \<or> 7 * MaxLenUvarint63 \<le> s then Inl ErrOverflow
      else if b < 0x80 then
        (if b = 0 \<and> 0 < s then Inl ErrNotMinimal else Inr (x OR push_bit s (ucast b), r))
      else ReadUvarint_loop (s + 7) (x OR push_bit s (ucast (b AND 0x7f))) r)"

definition ReadUvarint :: "byte list \<Rightarrow> error + (uint64 \<times> byte list)" where
  "ReadUvarint r = ReadUvarint_loop 0 0 r"

text \<open>\<open>readNextHeader\<close>: the channel id is \<^verbatim>\<open>h >> 3\<close>, the tag \<^verbatim>\<open>h & 7\<close>.\<close>

definition readNextHeader :: "byte list \<Rightarrow> error + (uint64 \<times> uint64 \<times> byte list)" where
  "readNextHeader r =
     (case ReadUvarint r of
        Inl err \<Rightarrow> Inl err
      | Inr (h, r') \<Rightarrow> Inr (drop_bit 3 h, h AND 7, r'))"


section \<open>Filling the outbound buffer\<close>

text \<open>
  The three writes of \<open>sendMsg\<close> into the buffer it was given. \<^verbatim>\<open>buf[n:]\<close> shares its
  bytes with \<open>buf\<close> and panics when \<open>n\<close> is beyond the buffer; \<^verbatim>\<open>copy\<close> writes as many
  bytes as fit and never panics; \<^verbatim>\<open>buf[:n]\<close> is what is put on the write queue. The
  result is the buffer after the writes and \<open>n\<close>; \<open>None\<close> is a panic.
\<close>

definition PutUvarint_at :: "byte list \<Rightarrow> nat \<Rightarrow> uint64 \<Rightarrow> (byte list \<times> nat) option" where
  "PutUvarint_at buf n x =
     (if n \<le> length buf then
        (case PutUvarint (drop n buf) x of
           None \<Rightarrow> None
         | Some (s, k) \<Rightarrow> Some (take n buf @ s, n + k))
      else None)"

definition copy_at :: "byte list \<Rightarrow> nat \<Rightarrow> byte list \<Rightarrow> (byte list \<times> nat) option" where
  "copy_at buf n src =
     (if n \<le> length buf then
        (let k = min (length buf - n) (length src)
         in Some (take n buf @ take k src @ drop (n + k) buf, n + k))
      else None)"

definition sendMsg_fill :: "byte list \<Rightarrow> uint64 \<Rightarrow> byte list \<Rightarrow> (byte list \<times> nat) option" where
  "sendMsg_fill buf header data =
     (case PutUvarint_at buf 0 header of
        None \<Rightarrow> None
      | Some (buf1, n1) \<Rightarrow>
          (case PutUvarint_at buf1 n1 (word_of_nat (length data)) of
             None \<Rightarrow> None
           | Some (buf2, n2) \<Rightarrow>
               (case copy_at buf2 n2 data of
                  None \<Rightarrow> None
                | Some (buf3, n3) \<Rightarrow> if n3 \<le> length buf3 then Some (buf3, n3) else None)))"

section \<open>The session and its streams\<close>

text \<open>
  \<open>streamID\<close>: the map key, \<open>id_num\<close> the field \<^verbatim>\<open>id\<close> and \<open>initiator\<close> true if this
  side opened the stream.
\<close>

record streamID =
  id_num :: uint64
  initiator :: bool

text \<open>
  A stream, with the fields \<open>newStream\<close> sets. The channel \<^verbatim>\<open>dataIn\<close> is its queue of
  chunks, its capacity and whether it was closed; \<^verbatim>\<open>readCancel\<close> and \<^verbatim>\<open>writeCancel\<close>
  are true once closed. A deadline, which \<^verbatim>\<open>makePipeDeadline\<close> creates, is \<open>None\<close> while
  none is set. The last three fields serve the stream's own methods, which are modelled
  from the spec below.
\<close>

record Stream =
  stream_id :: streamID
  name :: "byte list"
  dataIn :: "byte list list"
  dataIn_cap :: nat
  dataIn_closed :: bool
  rDeadline :: "nat option"
  wDeadline :: "nat option"
  writeCancel :: bool
  readCancel :: bool
  readCancelErr :: "error option"
  writeCancelErr :: "error option"
  isReset :: bool

text \<open>The calls a session makes on its memory manager, in order.\<close>

datatype mm_call = ReserveMemory int byte | ReleaseMemory int

text \<open>
  A memory manager answers a reservation from the calls made so far, the reservation
  last: \<open>None\<close> grants it. \<open>nullMemoryManager\<close> grants everything.
\<close>

type_synonym MemoryManager = "mm_call list \<Rightarrow> error option"

definition nullMemoryManager :: MemoryManager where
  "nullMemoryManager calls = None"

text \<open>
  The session. \<open>input\<close> is the buffered reader over the connection: the bytes the peer
  has sent and the receive loop has not read, the end of the list being the end of the
  transport. Streams live in \<open>heap\<close>, a \<^verbatim>\<open>*Stream\<close> being an index into it; \<open>channels\<close> is
  \<open>None\<close> for the nil map. \<open>bufIn\<close> and \<open>bufOut\<close> count the tokens in the two slot
  channels, \<open>writeCh\<close> and \<open>nstreams\<close> are the queues of those channels, \<open>shutdown\<close> and
  \<open>closed\<close> are true once those channels are closed. \<open>resetFrames\<close> lists the headers of
  the Reset frames that streams have asked the session to send.
\<close>

record Multiplex =
  input :: "byte list"
  con_closed :: bool
  nextID :: uint64
  mp_initiator :: bool
  memoryManager :: MemoryManager
  mm_calls :: "mm_call list"
  closed :: bool
  shutdown :: bool
  shutdownErr :: "error option"
  writeCh :: "byte list list"
  nstreams :: "nat list"
  channels :: "(streamID \<times> nat) list option"
  bufIn :: nat
  bufIn_cap :: nat
  bufOut :: nat
  bufOut_cap :: nat
  bufMax :: nat
  reservedMemory :: int
  heap :: "Stream list"
  resetFrames :: "uint64 list"

text \<open>The package variables a session reads, and their declared values.\<close>

record config =
  MaxMessageSize :: int
  MaxBuffers :: int

definition default_config :: config where
  "default_config = \<lparr>MaxMessageSize = 2 ^ 20, MaxBuffers = 4\<rparr>"

text \<open>An \<^verbatim>\<open>int\<close> of Go has 64 bits: arithmetic on it wraps.\<close>

definition go_int :: "int \<Rightarrow> int" where
  "go_int n = signed_take_bit 63 n"

text \<open>
  What a call does: it returns a value, returns an error, panics, or blocks with nothing
  in the state to let it go on.
\<close>

datatype 'a outcome = Ok 'a Multiplex | Err error Multiplex | Panic | Blocked

text \<open>
  Which case a \<^verbatim>\<open>select\<close> statement takes is the scheduler's choice among the cases
  that are ready: a send on a channel with room, a receive from a closed channel. A
  choice that is not ready in the state, or that the statement does not have, leaves the
  call blocked.
\<close>

datatype select_case = SelSend | SelCancel | SelTimeout | SelShutdown

section \<open>NewMultiplex\<close>

definition slot_prio :: "nat \<Rightarrow> byte" where
  "slot_prio bufs = (case bufs of 0 \<Rightarrow> 255 | Suc 0 \<Rightarrow> 192 | _ \<Rightarrow> 128)"

text \<open>
  The reservation loop: \<open>i\<close> counts the rounds, \<open>bufs\<close> the reservations granted. The
  result is \<open>bufs\<close> and \<open>err\<close> after the loop.
\<close>

function reserve_loop :: "config \<Rightarrow> int \<Rightarrow> nat \<Rightarrow> Multiplex \<Rightarrow> nat \<times> error option \<times> Multiplex" where
  "reserve_loop cfg i bufs mp =
     (if i < MaxBuffers cfg then
        (let prio = slot_prio bufs;
             calls = mm_calls mp @ [ReserveMemory (go_int (2 * MaxMessageSize cfg)) prio]
         in case memoryManager mp calls of
              Some err \<Rightarrow> (bufs, Some err, mp\<lparr>mm_calls := calls\<rparr>)
            | None \<Rightarrow>
                reserve_loop cfg (i + 1) (bufs + 1)
                  (mp\<lparr>mm_calls := calls,
                      reservedMemory := go_int (reservedMemory mp + go_int (2 * MaxMessageSize cfg))\<rparr>))
      else (bufs, None, mp))"
  by pat_completeness auto
termination
  by (relation "measure (\<lambda>(cfg, i, bufs, mp). nat (MaxBuffers cfg - i))") auto

declare reserve_loop.simps [simp del]

text \<open>
  The session \<open>NewMultiplex\<close> starts from, over a connection whose peer sends \<open>con\<close>;
  a nil memory manager is replaced by \<open>nullMemoryManager\<close>.
\<close>

definition initial_session :: "byte list \<Rightarrow> bool \<Rightarrow> MemoryManager option \<Rightarrow> Multiplex" where
  "initial_session con init mm =
     \<lparr>input = con, con_closed = False, nextID = 0, mp_initiator = init,
      memoryManager = (case mm of None \<Rightarrow> nullMemoryManager | Some m \<Rightarrow> m),
      mm_calls = [], closed = False, shutdown = False, shutdownErr = None,
      writeCh = [], nstreams = [], channels = Some [],
      bufIn = 0, bufIn_cap = 0, bufOut = 0, bufOut_cap = 0, bufMax = 0,
      reservedMemory = 0, heap = [], resetFrames = []\<rparr>"

text \<open>
  \<open>NewMultiplex\<close>: the result is the pair of the session and the error. The two loops
  are started after it returns.
\<close>

definition NewMultiplex ::
  "config \<Rightarrow> byte list \<Rightarrow> bool \<Rightarrow> MemoryManager option \<Rightarrow> Multiplex option \<times> error option" where
  "NewMultiplex cfg con init mm =
     (case reserve_loop cfg 0 0 (initial_session con init mm) of
        (bufs, err, mp) \<Rightarrow>
          if bufs = 0 then (None, err)
          else (Some (mp\<lparr>bufMax := bufs, bufIn_cap := bufs, bufOut_cap := bufs\<rparr>), None))"

text \<open>
  The first \<open>n\<close> reservations as the specification lists them: each of
  \<^verbatim>\<open>2*MaxMessageSize\<close> bytes, the first with priority 255, the second with 192, the
  others with 128.
\<close>

definition reservation_calls :: "config \<Rightarrow> nat \<Rightarrow> mm_call list" where
  "reservation_calls cfg n =
     map (\<lambda>i. ReserveMemory (go_int (2 * MaxMessageSize cfg))
                (if i = 0 then 255 else if i = 1 then 192 else 128)) [0..<n]"

text \<open>\<open>newStream\<close> allocates the stream and returns its pointer.\<close>

definition newStream :: "streamID \<Rightarrow> byte list \<Rightarrow> Multiplex \<Rightarrow> nat \<times> Multiplex" where
  "newStream ident nm mp =
     (length (heap mp),
      mp\<lparr>heap := heap mp @
        [\<lparr>stream_id = ident, name = nm, dataIn = [], dataIn_cap = bufMax mp,
          dataIn_closed = False, rDeadline = None, wDeadline = None,
          writeCancel = False, readCancel = False,
          readCancelErr = None, writeCancelErr = None, isReset = False\<rparr>]\<rparr>)"

definition closeNoWait :: "Multiplex \<Rightarrow> Multiplex" where
  "closeNoWait mp =
     (if shutdown mp then mp
      else mp\<lparr>mm_calls := mm_calls mp @ [ReleaseMemory (reservedMemory mp)],
              con_closed := True, shutdown := True\<rparr>)"

section \<open>Buffers and slots\<close>

text \<open>
  \<^verbatim>\<open>pool.Get(length)\<close> returns a buffer of that length, whose bytes are not specified
  (the model takes zeros), and panics on a negative length.
\<close>

definition getBuffer :: "int \<Rightarrow> byte list option" where
  "getBuffer len = (if len < 0 then None else Some (replicate (nat len) 0))"

definition getBufferInbound :: "select_case \<Rightarrow> int \<Rightarrow> Multiplex \<Rightarrow> byte list outcome" where
  "getBufferInbound sel len mp =
     (case sel of
        SelSend \<Rightarrow>
          if bufIn mp < bufIn_cap mp then
            (case getBuffer len of
               None \<Rightarrow> Panic
             | Some buf \<Rightarrow> Ok buf (mp\<lparr>bufIn := bufIn mp + 1\<rparr>))
          else Blocked
      | SelShutdown \<Rightarrow> if shutdown mp then Err ErrShutdown mp else Blocked
      | _ \<Rightarrow> Blocked)"

text \<open>
  A channel a caller passes in: \<open>None\<close> is the nil channel, which is never ready;
  \<open>Some c\<close> is ready for a receive once it is closed (\<open>c\<close>).
\<close>

definition chan_ready :: "bool option \<Rightarrow> bool" where
  "chan_ready c = (c = Some True)"

definition getBufferOutbound ::
  "select_case \<Rightarrow> int \<Rightarrow> bool option \<Rightarrow> bool option \<Rightarrow> Multiplex \<Rightarrow> byte list outcome" where
  "getBufferOutbound sel len timeout cancel mp =
     (case sel of
        SelSend \<Rightarrow>
          if bufOut mp < bufOut_cap mp then
            (case getBuffer len of
               None \<Rightarrow> Panic
             | Some buf \<Rightarrow> Ok buf (mp\<lparr>bufOut := bufOut mp + 1\<rparr>))
          else Blocked
      | SelTimeout \<Rightarrow> if chan_ready timeout then Err errTimeout mp else Blocked
      | SelCancel \<Rightarrow> if chan_ready cancel then Err ErrStreamClosed mp else Blocked
      | SelShutdown \<Rightarrow> if shutdown mp then Err ErrShutdown mp else Blocked)"

text \<open>
  \<open>putBuffer\<close> receives a token from the slot channel, which blocks while the channel
  is empty, and gives the buffer back to the pool.
\<close>

definition putBufferInbound :: "Multiplex \<Rightarrow> unit outcome" where
  "putBufferInbound mp =
     (if bufIn mp = 0 then Blocked else Ok () (mp\<lparr>bufIn := bufIn mp - 1\<rparr>))"

definition putBufferOutbound :: "Multiplex \<Rightarrow> unit outcome" where
  "putBufferOutbound mp =
     (if bufOut mp = 0 then Blocked else Ok () (mp\<lparr>bufOut := bufOut mp - 1\<rparr>))"


section \<open>Sending a frame\<close>

text \<open>
  \<open>sendMsg\<close>: \<open>sel1\<close> is the case taken while waiting for an outbound slot, \<open>sel2\<close> the
  case taken while handing the frame to the write queue, which holds 16 frames.
\<close>

definition sendMsg ::
  "select_case \<Rightarrow> select_case \<Rightarrow> bool option \<Rightarrow> bool option \<Rightarrow> uint64 \<Rightarrow> byte list \<Rightarrow>
   Multiplex \<Rightarrow> unit outcome" where
  "sendMsg sel1 sel2 timeout cancel header data mp =
     (case getBufferOutbound sel1 (int (length data) + 20) timeout cancel mp of
        Err err mp1 \<Rightarrow> Err err mp1
      | Panic \<Rightarrow> Panic
      | Blocked \<Rightarrow> Blocked
      | Ok buf mp1 \<Rightarrow>
          (case sendMsg_fill buf header data of
             None \<Rightarrow> Panic
           | Some (buf', n) \<Rightarrow>
               (case sel2 of
                  SelSend \<Rightarrow>
                    if length (writeCh mp1) < 16
                    then Ok () (mp1\<lparr>writeCh := writeCh mp1 @ [take n buf']\<rparr>)
                    else Blocked
                | SelShutdown \<Rightarrow>
                    if shutdown mp1 then
                      (case putBufferOutbound mp1 of
                         Ok u mp2 \<Rightarrow> Err ErrShutdown mp2
                       | Err e mp2 \<Rightarrow> Err e mp2 | Panic \<Rightarrow> Panic | Blocked \<Rightarrow> Blocked)
                    else Blocked
                | SelTimeout \<Rightarrow>
                    if chan_ready timeout then
                      (case putBufferOutbound mp1 of
                         Ok u mp2 \<Rightarrow> Err errTimeout mp2
                       | Err e mp2 \<Rightarrow> Err e mp2 | Panic \<Rightarrow> Panic | Blocked \<Rightarrow> Blocked)
                    else Blocked
                | SelCancel \<Rightarrow>
                    if chan_ready cancel then
                      (case putBufferOutbound mp1 of
                         Ok u mp2 \<Rightarrow> Err ErrStreamClosed mp2
                       | Err e mp2 \<Rightarrow> Err e mp2 | Panic \<Rightarrow> Panic | Blocked \<Rightarrow> Blocked)
                    else Blocked)))"

definition nextChanID :: "Multiplex \<Rightarrow> uint64 \<times> Multiplex" where
  "nextChanID mp = (nextID mp, mp\<lparr>nextID := nextID mp + 1\<rparr>)"

text \<open>\<^verbatim>\<open>fmt.Sprint(sid)\<close>: the decimal digits of the id.\<close>

function decimal :: "nat \<Rightarrow> byte list" where
  "decimal n = (if n < 10 then [word_of_nat (48 + n)]
                else decimal (n div 10) @ [word_of_nat (48 + n mod 10)])"
  by pat_completeness auto
termination
  by (relation "measure (\<lambda>n. n)") auto

declare decimal.simps [simp del]

definition Sprint :: "uint64 \<Rightarrow> byte list" where
  "Sprint sid = decimal (unat sid)"

text \<open>
  The part of \<open>NewNamedStream\<close> that runs with the lock held, \<open>m\<close> being the map: the
  id, the header, the name, the new stream and its entry in the map. The result is the
  stream, the header and the name to send.
\<close>

definition NewNamedStream_locked ::
  "byte list \<Rightarrow> (streamID \<times> nat) list \<Rightarrow> Multiplex \<Rightarrow> (nat \<times> uint64 \<times> byte list) \<times> Multiplex" where
  "NewNamedStream_locked nm m mp =
     (case nextChanID mp of
        (sid, mp1) \<Rightarrow>
          (let header = push_bit 3 sid OR newStreamTag;
               nm' = (if nm = [] then Sprint sid else nm)
           in case newStream \<lparr>id_num = sid, initiator = True\<rparr> nm' mp1 of
                (s, mp2) \<Rightarrow>
                  ((s, header, nm'),
                   mp2\<lparr>channels := Some (AList.update \<lparr>id_num = sid, initiator = True\<rparr> s m)\<rparr>)))"

text \<open>
  \<open>NewNamedStream\<close>. The context is \<open>None\<close> while it is not done and \<open>Some e\<close> once it
  is, \<open>e\<close> being \<^verbatim>\<open>ctx.Err()\<close>; \<^verbatim>\<open>ctx.Done()\<close> is closed from then on. The result is the
  stream returned (\<open>None\<close> for nil) or the error.
\<close>

definition NewNamedStream ::
  "select_case \<Rightarrow> select_case \<Rightarrow> error option \<Rightarrow> byte list \<Rightarrow> Multiplex \<Rightarrow> nat option outcome" where
  "NewNamedStream sel1 sel2 ctx nm mp =
     (case channels mp of
        None \<Rightarrow> Err ErrShutdown mp
      | Some m \<Rightarrow>
          (case NewNamedStream_locked nm m mp of
             ((s, header, nm'), mp3) \<Rightarrow>
               (case sendMsg sel1 sel2 (Some (ctx \<noteq> None)) None header nm' mp3 of
                  Err err mp4 \<Rightarrow>
                    if err = errTimeout then
                      (case ctx of
                         None \<Rightarrow> Ok None mp4
                       | Some e \<Rightarrow> Err e mp4)
                    else Err err mp4
                | Panic \<Rightarrow> Panic
                | Blocked \<Rightarrow> Blocked
                | Ok u mp4 \<Rightarrow> Ok (Some s) mp4)))"

section \<open>The methods of a stream\<close>

definition update_stream :: "nat \<Rightarrow> (Stream \<Rightarrow> Stream) \<Rightarrow> Multiplex \<Rightarrow> Multiplex" where
  "update_stream s f mp =
     (if s < length (heap mp) then mp\<lparr>heap := (heap mp)[s := f (heap mp ! s)]\<rparr> else mp)"

text \<open>
  Modelled from the spec: \<open>cancelRead\<close> of the stream, which multiplex.go calls and does
  not define. "Read-cancel and write-cancel are one-shot signals; once raised they remain raised and
  carry a terminal error."
\<close>

definition cancelRead :: "nat \<Rightarrow> error \<Rightarrow> Multiplex \<Rightarrow> Multiplex" where
  "cancelRead s err mp =
     update_stream s
       (\<lambda>st. if readCancel st then st
             else st\<lparr>readCancel := True, readCancelErr := Some err\<rparr>) mp"

text \<open>Modelled from the spec: \<open>cancelWrite\<close> of the stream, as \<open>cancelRead\<close>.\<close>

definition cancelWrite :: "nat \<Rightarrow> error \<Rightarrow> Multiplex \<Rightarrow> Multiplex" where
  "cancelWrite s err mp =
     update_stream s
       (\<lambda>st. if writeCancel st then st
             else st\<lparr>writeCancel := True, writeCancelErr := Some err\<rparr>) mp"

text \<open>
  Modelled from the spec: \<open>Reset\<close> of the stream, which multiplex.go calls and does not
  define. "Reset() -> idempotent; sends a Reset frame best-effort with a bounded timeout, cancels
  pending reads and writes with ErrStreamReset, removes the stream from the session map,
  closes its data channel." The frame asked for is recorded in \<open>resetFrames\<close>; its tag is
  even when this side opened the stream.
\<close>

definition Reset :: "nat \<Rightarrow> Multiplex \<Rightarrow> Multiplex" where
  "Reset s mp =
     (if s < length (heap mp) \<and> \<not> isReset (heap mp ! s) then
        (let ident = stream_id (heap mp ! s);
             header = push_bit 3 (id_num ident) OR (if initiator ident then resetTag else resetTag - 1);
             mp1 = cancelWrite s ErrStreamReset (cancelRead s ErrStreamReset mp);
             mp2 = update_stream s (\<lambda>st. st\<lparr>dataIn_closed := True, isReset := True\<rparr>) mp1
         in mp2\<lparr>channels := map_option (AList.delete ident) (channels mp2),
                resetFrames := resetFrames mp2 @ [header]\<rparr>)
      else mp)"

text \<open>
  Modelled from the spec: what \<open>Read\<close> of the stream, which multiplex.go does not define,
  takes from the queue. "Read(buf) ->
  returns one chunk of bytes from the head of the inbound queue"; "Fails with EOF after
  channel closed and drained, ErrStreamReset on reset". The read blocks on an empty open
  queue.
\<close>

definition Read_chunk :: "nat \<Rightarrow> Multiplex \<Rightarrow> byte list outcome" where
  "Read_chunk s mp =
     (if s < length (heap mp) then
        (let st = heap mp ! s in
         case dataIn st of
           c # cs \<Rightarrow> Ok c (update_stream s (\<lambda>st. st\<lparr>dataIn := cs\<rparr>) mp)
         | [] \<Rightarrow>
             if readCancel st then
               Err (case readCancelErr st of None \<Rightarrow> ErrStreamReset | Some e \<Rightarrow> e) mp
             else if dataIn_closed st then Err EOF mp
             else Blocked)
      else Panic)"

section \<open>The receive loop\<close>

text \<open>
  \<^verbatim>\<open>io.ReadFull\<close> into a buffer of \<open>n\<close> bytes: the bytes and the rest of the input, or
  the error of an input that ends early.
\<close>

definition ReadFull :: "byte list \<Rightarrow> nat \<Rightarrow> error + (byte list \<times> byte list)" where
  "ReadFull r n =
     (if n \<le> length r then Inr (take n r, drop n r)
      else Inl (if r = [] then EOF else ErrUnexpectedEOF))"

text \<open>
  \<open>readNext\<close>: \<open>sel\<close> is the case taken while waiting for an inbound slot. The length is
  compared with \<^verbatim>\<open>uint64(MaxMessageSize)\<close>; a length 0 returns nil, the empty list,
  before any slot is asked for; \<^verbatim>\<open>int(l)\<close> is the length as a signed number. Where a read
  fails, the reader is left where it was: the loop returns and nothing reads again. A read
  that fails after the slot was taken returns without giving the slot back.
\<close>

definition readNext :: "config \<Rightarrow> select_case \<Rightarrow> Multiplex \<Rightarrow> byte list outcome" where
  "readNext cfg sel mp =
     (case ReadUvarint (input mp) of
        Inl err \<Rightarrow> Err err mp
      | Inr (l, r) \<Rightarrow>
          (let mp1 = mp\<lparr>input := r\<rparr> in
           if (word_of_int (MaxMessageSize cfg) :: uint64) < l then Err ErrMessageSizeTooLarge mp1
           else if l = 0 then Ok [] mp1
           else
             (case getBufferInbound sel (sint l) mp1 of
                Err err mp2 \<Rightarrow> Err err mp2
              | Panic \<Rightarrow> Panic
              | Blocked \<Rightarrow> Blocked
              | Ok buf mp2 \<Rightarrow>
                  (case ReadFull (input mp2) (length buf) of
                     Inl err \<Rightarrow> Err err mp2
                   | Inr (b, r') \<Rightarrow> Ok b (mp2\<lparr>input := r'\<rparr>)))))"

text \<open>The three cases the scheduler decides in one round of the receive loop.\<close>

record choices =
  slot :: select_case
  publish :: select_case
  handoff :: select_case

text \<open>What one round of the loop does: it goes on, it returns, it panics or it blocks.\<close>

datatype round = Continue Multiplex | Return Multiplex | RoundPanic | RoundBlocked

definition remoteIsInitiator :: "uint64 \<Rightarrow> bool" where
  "remoteIsInitiator tag = (tag AND 1 = 0)"

definition frame_key :: "uint64 \<Rightarrow> uint64 \<Rightarrow> streamID" where
  "frame_key chID tag = \<lparr>id_num = chID, initiator = \<not> remoteIsInitiator tag\<rparr>"

definition round_tag :: "uint64 \<Rightarrow> uint64" where
  "round_tag tag = tag + (tag AND 1)"

definition lookup_channel :: "Multiplex \<Rightarrow> streamID \<Rightarrow> nat option" where
  "lookup_channel mp ch = (case channels mp of None \<Rightarrow> None | Some m \<Rightarrow> map_of m ch)"

text \<open>
  The \<^verbatim>\<open>select\<close> that hands a Message payload \<open>b\<close> to the stream \<open>s\<close>. A send on the
  queue is ready while it has room and panics on a closed queue; the timer's case is
  the scheduler's to take once \<open>ReceiveTimeout\<close> has passed, the timer itself being no
  part of the state. On the timer's case the payload's buffer is put back, then the
  stream is reset, then the loop continues.
\<close>

definition hand_off :: "select_case \<Rightarrow> nat \<Rightarrow> byte list \<Rightarrow> Multiplex \<Rightarrow> round" where
  "hand_off sel s b mp =
     (if s < length (heap mp) then
        (let st = heap mp ! s in
         case sel of
           SelSend \<Rightarrow>
             if dataIn_closed st then RoundPanic
             else if length (dataIn st) < dataIn_cap st
             then Continue (update_stream s (\<lambda>st. st\<lparr>dataIn := dataIn st @ [b]\<rparr>) mp)
             else RoundBlocked
         | SelCancel \<Rightarrow>
             if readCancel st then
               (case putBufferInbound mp of
                  Ok u mp1 \<Rightarrow> Continue mp1
                | Err e mp1 \<Rightarrow> RoundPanic | Panic \<Rightarrow> RoundPanic | Blocked \<Rightarrow> RoundBlocked)
             else RoundBlocked
         | SelTimeout \<Rightarrow>
             (case putBufferInbound mp of
                Ok u mp1 \<Rightarrow> Continue (Reset s mp1)
              | Err e mp1 \<Rightarrow> RoundPanic | Panic \<Rightarrow> RoundPanic | Blocked \<Rightarrow> RoundBlocked)
         | SelShutdown \<Rightarrow>
             if shutdown mp then
               (case putBufferInbound mp of
                  Ok u mp1 \<Rightarrow> Return mp1
                | Err e mp1 \<Rightarrow> RoundPanic | Panic \<Rightarrow> RoundPanic | Blocked \<Rightarrow> RoundBlocked)
             else RoundBlocked)
      else RoundPanic)"

text \<open>
  The \<^verbatim>\<open>switch\<close> on the rounded tag, for the key \<open>ch\<close> and the payload \<open>b\<close>; \<open>msch\<close> is
  what the map holds for the key. The accept queue holds 16 streams. Closing a closed
  channel and storing into a nil map panic.
\<close>

definition dispatch :: "choices \<Rightarrow> streamID \<Rightarrow> uint64 \<Rightarrow> byte list \<Rightarrow> Multiplex \<Rightarrow> round" where
  "dispatch env ch tag b mp =
     (let msch = lookup_channel mp ch in
      if tag = newStreamTag then
        (case msch of
           Some s \<Rightarrow> Return (mp\<lparr>shutdownErr := Some ErrInvalidState\<rparr>)
         | None \<Rightarrow>
             (case putBufferInbound mp of
                Blocked \<Rightarrow> RoundBlocked
              | Panic \<Rightarrow> RoundPanic
              | Err e mp1 \<Rightarrow> RoundPanic
              | Ok u mp1 \<Rightarrow>
                  (case newStream ch b mp1 of
                     (s, mp2) \<Rightarrow>
                       (case channels mp2 of
                          None \<Rightarrow> RoundPanic
                        | Some m \<Rightarrow>
                            (let mp3 = mp2\<lparr>channels := Some (AList.update ch s m)\<rparr> in
                             case publish env of
                               SelSend \<Rightarrow>
                                 if length (nstreams mp3) < 16
                                 then Continue (mp3\<lparr>nstreams := nstreams mp3 @ [s]\<rparr>)
                                 else RoundBlocked
                             | SelShutdown \<Rightarrow> if shutdown mp3 then Return mp3 else RoundBlocked
                             | _ \<Rightarrow> RoundBlocked)))))
      else if tag = resetTag then
        (case msch of
           None \<Rightarrow> Continue mp
         | Some s \<Rightarrow> Continue (cancelWrite s ErrStreamReset (cancelRead s ErrStreamReset mp)))
      else if tag = closeTag then
        (case msch of
           None \<Rightarrow> Continue mp
         | Some s \<Rightarrow>
             (let mp1 = mp\<lparr>channels := map_option (AList.delete ch) (channels mp)\<rparr> in
              if s < length (heap mp1) \<and> \<not> dataIn_closed (heap mp1 ! s)
              then Continue (update_stream s (\<lambda>st. st\<lparr>dataIn_closed := True\<rparr>) mp1)
              else RoundPanic))
      else if tag = messageTag then
        (case msch of
           None \<Rightarrow>
             (case putBufferInbound mp of
                Ok u mp1 \<Rightarrow> Continue mp1
              | Err e mp1 \<Rightarrow> RoundPanic | Panic \<Rightarrow> RoundPanic | Blocked \<Rightarrow> RoundBlocked)
         | Some s \<Rightarrow> hand_off (handoff env) s b mp)
      else
        (case msch of
           Some s \<Rightarrow> Continue (Reset s mp)
         | None \<Rightarrow> Continue mp))"

text \<open>
  One round of the loop of \<open>handleIncoming\<close>: the header, the key and the rounded tag,
  the payload, the dispatch. An error of either read is stored as the shutdown cause and
  the function returns.
\<close>

definition handleIncoming_round :: "config \<Rightarrow> choices \<Rightarrow> Multiplex \<Rightarrow> round" where
  "handleIncoming_round cfg env mp =
     (case readNextHeader (input mp) of
        Inl err \<Rightarrow> Return (mp\<lparr>shutdownErr := Some err\<rparr>)
      | Inr (chID, tag, r) \<Rightarrow>
          (let ch = frame_key chID tag;
               tag' = round_tag tag
           in case readNext cfg (slot env) (mp\<lparr>input := r\<rparr>) of
                Err err mp1 \<Rightarrow> Return (mp1\<lparr>shutdownErr := Some err\<rparr>)
              | Panic \<Rightarrow> RoundPanic
              | Blocked \<Rightarrow> RoundBlocked
              | Ok b mp1 \<Rightarrow> dispatch env ch tag' b mp1))"

text \<open>\<open>cleanup\<close>, which \<open>handleIncoming\<close> defers: it runs when the loop returns.\<close>

definition cleanup :: "Multiplex \<Rightarrow> Multiplex" where
  "cleanup mp =
     (let mp1 = closeNoWait mp;
          chans = (case channels mp1 of None \<Rightarrow> [] | Some m \<Rightarrow> m);
          mp2 = mp1\<lparr>channels := None\<rparr>;
          mp3 = foldl (\<lambda>acc (k, s). cancelWrite s ErrStreamReset (cancelRead s ErrStreamReset acc))
                  mp2 chans;
          mp4 = (if shutdownErr mp3 = None then mp3\<lparr>shutdownErr := Some ErrShutdown\<rparr> else mp3)
      in mp4\<lparr>closed := True\<rparr>)"

text \<open>
  \<open>handleIncoming\<close>: rounds until one returns, then \<open>cleanup\<close>; \<open>env k\<close> are the
  scheduler's choices in round \<open>k\<close>. A loop that never ends is \<open>None\<close>.
\<close>

datatype finish = Finished Multiplex | Panicked | Hung

partial_function (option) handleIncoming_loop ::
  "config \<Rightarrow> (nat \<Rightarrow> choices) \<Rightarrow> nat \<Rightarrow> Multiplex \<Rightarrow> finish option" where
  "handleIncoming_loop cfg env k mp =
     (case handleIncoming_round cfg (env k) mp of
        Continue mp' \<Rightarrow> handleIncoming_loop cfg env (k + 1) mp'
      | Return mp' \<Rightarrow> Some (Finished (cleanup mp'))
      | RoundPanic \<Rightarrow> Some Panicked
      | RoundBlocked \<Rightarrow> Some Hung)"

declare handleIncoming_loop.simps [code]

definition handleIncoming :: "config \<Rightarrow> (nat \<Rightarrow> choices) \<Rightarrow> Multiplex \<Rightarrow> finish option" where
  "handleIncoming cfg env mp = handleIncoming_loop cfg env 0 mp"


section \<open>Example sessions\<close>

text \<open>
  The session \<open>NewMultiplex\<close> returns for the declared values of the package variables
  and no memory manager, over a connection whose peer sends \<open>con\<close>.
\<close>

definition fresh_session :: "byte list \<Rightarrow> Multiplex" where
  "fresh_session con =
     \<lparr>input = con, con_closed = False, nextID = 0, mp_initiator = False,
      memoryManager = nullMemoryManager,
      mm_calls = [ReserveMemory 2097152 255, ReserveMemory 2097152 192,
                  ReserveMemory 2097152 128, ReserveMemory 2097152 128],
      closed = False, shutdown = False, shutdownErr = None,
      writeCh = [], nstreams = [], channels = Some [],
      bufIn = 0, bufIn_cap = 4, bufOut = 0, bufOut_cap = 4, bufMax = 4,
      reservedMemory = 8388608, heap = [], resetFrames = []\<rparr>"

text \<open>A stream the peer has opened with id 0 and name "a", holding the chunks \<open>q\<close>.\<close>

definition peer_stream :: "byte list list \<Rightarrow> Stream" where
  "peer_stream q =
     \<lparr>stream_id = \<lparr>id_num = 0, initiator = False\<rparr>, name = [97], dataIn = q,
      dataIn_cap = 4, dataIn_closed = False, rDeadline = None, wDeadline = None,
      writeCancel = False, readCancel = False, readCancelErr = None,
      writeCancelErr = None, isReset = False\<rparr>"

text \<open>
  The session after the peer's NewStream frame for that stream was received and the
  stream accepted, with \<open>n\<close> inbound slots in use.
\<close>

definition live_session :: "byte list \<Rightarrow> byte list list \<Rightarrow> nat \<Rightarrow> Multiplex" where
  "live_session con q n =
     (fresh_session con)\<lparr>channels := Some [(\<lparr>id_num = 0, initiator = False\<rparr>, 0)],
                          heap := [peer_stream q], bufIn := n\<rparr>"

text \<open>A scheduler that takes the same cases in every round.\<close>

definition always :: "select_case \<Rightarrow> select_case \<Rightarrow> select_case \<Rightarrow> nat \<Rightarrow> choices" where
  "always s p h k = \<lparr>slot = s, publish = p, handoff = h\<rparr>"

text \<open>A memory manager that refuses the \<open>n\<close>-th reservation with the error \<open>e\<close>.\<close>

definition refuse_nth :: "nat \<Rightarrow> error \<Rightarrow> MemoryManager" where
  "refuse_nth n e calls = (if length calls = n then Some e else None)"


text \<open>
  A scheduler that hands every Message payload to its stream in the rounds before \<open>n\<close>
  and takes the timer's case from round \<open>n\<close> on.
\<close>

definition deliver_then_time_out :: "nat \<Rightarrow> nat \<Rightarrow> choices" where
  "deliver_then_time_out n k =
     \<lparr>slot = SelSend, publish = SelSend, handoff = (if k < n then SelSend else SelTimeout)\<rparr>"

section \<open>Facts about the varint codec\<close>

lemma uvarint_big: "0x80 \<le> x \<Longrightarrow> uvarint x = (ucast x OR 0x80) # uvarint (drop_bit 7 x)"
  by (simp add: uvarint.simps [of x])

lemma uvarint_small: "\<not> 0x80 \<le> x \<Longrightarrow> uvarint x = [ucast x]"
  by (simp add: uvarint.simps [of x])

lemma PutUvarint_loop_big:
  "0x80 \<le> x \<Longrightarrow> i < length buf \<Longrightarrow>
   PutUvarint_loop buf i x = PutUvarint_loop (buf[i := ucast x OR 0x80]) (i + 1) (drop_bit 7 x)"
  by (simp add: PutUvarint_loop.simps [of buf i x])

lemma PutUvarint_loop_small:
  "\<not> 0x80 \<le> x \<Longrightarrow> i < length buf \<Longrightarrow> PutUvarint_loop buf i x = Some (buf[i := ucast x], i + 1)"
  by (simp add: PutUvarint_loop.simps [of buf i x])

lemma PutUvarint_loop_full:
  "\<not> i < length buf \<Longrightarrow> PutUvarint_loop buf i x = None"
  by (simp add: PutUvarint_loop.simps [of buf i x])


lemma unat_ucast_byte: "unat (ucast (x::uint64) :: byte) = unat x mod 256"
  by (simp add: unsigned_ucast_eq take_bit_eq_mod)

lemma ucast_byte_low: "x < 0x80 \<Longrightarrow> (ucast (ucast (x::uint64) :: byte) :: uint64) = x"
  by (simp add: word_less_nat_alt word_unat_eq_iff unsigned_ucast_eq take_bit_eq_mod unat_mod)

lemma bit_0x80: "bit (0x80::byte) n \<longleftrightarrow> n = 7"
proof -
  have "(0x80::byte) = 2 ^ 7" by simp
  then show ?thesis by (simp only: bit_exp_iff) auto
qed

lemma bit_0x7f: "bit (0x7f::byte) n \<longleftrightarrow> n < 7"
proof -
  have "(0x7f::byte) = mask 7" by (simp add: mask_eq_exp_minus_1)
  then show ?thesis by (simp only: bit_mask_iff) auto
qed

lemma byte_low7: "(ucast ((ucast (x::uint64) OR (0x80::byte)) AND 0x7f) :: uint64) = take_bit 7 x"
  by (rule bit_eqI)
    (simp only: bit_ucast_iff bit_and_iff bit_or_iff bit_0x80 bit_0x7f bit_take_bit_iff, auto)

lemma split7: "take_bit 7 (y::uint64) OR push_bit 7 (drop_bit 7 y) = y"
  apply (rule bit_eqI)
  apply (auto simp add: bit_simps)
  apply (metis add_diff_inverse_nat)
  done

lemma byte_final_lt: "\<not> 0x80 \<le> (x::uint64) \<Longrightarrow> (ucast x :: byte) < 0x80"
  by (simp add: word_less_nat_alt word_le_nat_alt unat_ucast_byte)

lemma byte_final_zero: "\<not> 0x80 \<le> (x::uint64) \<Longrightarrow> (ucast x :: byte) = 0 \<Longrightarrow> x = 0"
  by (simp add: word_less_nat_alt word_le_nat_alt unat_ucast_byte word_unat_eq_iff)

lemma byte_cont: "(0x80::byte) \<le> ucast (x::uint64) OR 0x80"
  by (simp add: le_word_or1)

lemma drop7_nonzero: "0x80 \<le> (x::uint64) \<Longrightarrow> drop_bit 7 x \<noteq> 0"
  by (simp add: word_le_nat_alt word_unat_eq_iff drop_bit_eq_div unat_div)

lemma drop7_bound: "unat (x::uint64) < 2 ^ (k + 7) \<Longrightarrow> unat (drop_bit 7 x) < 2 ^ k"
  by (simp add: drop_bit_eq_div unat_div power_add less_mult_imp_div_less)

lemma push_or_assoc:
  "(acc OR push_bit s (take_bit 7 (y::uint64))) OR push_bit (s + 7) (drop_bit 7 y) = acc OR push_bit s y"
proof -
  have "push_bit s (take_bit 7 y) OR push_bit (s + 7) (drop_bit 7 y)
      = push_bit s (take_bit 7 y OR push_bit 7 (drop_bit 7 y))"
    by (simp only: push_bit_or push_bit_push_bit add.commute)
  then show ?thesis by (simp only: split7 or.assoc)
qed

lemma ReadUvarint_loop_uvarint:
  "s + 7 * k = 63 \<Longrightarrow> 0 < k \<Longrightarrow> unat y < 2 ^ (7 * k) \<Longrightarrow> (0 < s \<Longrightarrow> y \<noteq> 0) \<Longrightarrow>
   ReadUvarint_loop s acc (uvarint y @ r) = Inr (acc OR push_bit s y, r)"
proof (induction y arbitrary: s k acc rule: uvarint.induct)
  case (1 x)
  show ?case
  proof (cases "0x80 \<le> x")
    case True
    then have "128 \<le> unat x" by (simp add: word_le_nat_alt)
    with "1.prems" have k2: "1 < k" by (cases "k = 1") auto
    then obtain k' where k': "k = Suc k'" "0 < k'" by (cases k) auto
    have s: "s \<noteq> 56" "\<not> 7 * MaxLenUvarint63 \<le> s"
      using "1.prems"(1) k2 by (auto simp: MaxLenUvarint63_def)
    have b: "unat (drop_bit 7 x) < 2 ^ (7 * k')"
      using "1.prems"(3) k' drop7_bound [of x "7 * k'"] by (simp add: add.commute)
    have IH: "ReadUvarint_loop (s + 7) (acc OR push_bit s (take_bit 7 x)) (uvarint (drop_bit 7 x) @ r)
        = Inr ((acc OR push_bit s (take_bit 7 x)) OR push_bit (s + 7) (drop_bit 7 x), r)"
      using "1.IH" [OF True, of "s + 7" k' "acc OR push_bit s (take_bit 7 x)"]
        "1.prems"(1) k' b drop7_nonzero [OF True] by simp
    have nlt: "\<not> (ucast x OR 0x80 :: byte) < 0x80"
      using byte_cont [of x] by (simp add: not_less)
    have "ReadUvarint_loop s acc (uvarint x @ r)
        = ReadUvarint_loop s acc ((ucast x OR 0x80) # uvarint (drop_bit 7 x) @ r)"
      using True by (simp add: uvarint_big)
    also have "\<dots> = ReadUvarint_loop (s + 7) (acc OR push_bit s (take_bit 7 x)) (uvarint (drop_bit 7 x) @ r)"
      using s nlt by (simp only: ReadUvarint_loop.simps byte_low7 if_False simp_thms)
    also have "\<dots> = Inr (acc OR push_bit s x, r)"
      using IH by (simp only: push_or_assoc)
    finally show ?thesis .
  next
    case False
    then have lt: "x < 0x80" by (simp add: not_le)
    have "s \<le> 56" using "1.prems"(1,2) by simp
    then have s: "\<not> 7 * MaxLenUvarint63 \<le> s" by (simp add: MaxLenUvarint63_def)
    have z: "\<not> ((ucast x :: byte) = 0 \<and> 0 < s)"
      using byte_final_zero [OF False] "1.prems"(4) by blast
    have "ReadUvarint_loop s acc (uvarint x @ r) = ReadUvarint_loop s acc (ucast x # r)"
      using False by (simp add: uvarint_small)
    also have "\<dots> = Inr (acc OR push_bit s (ucast (ucast x :: byte)), r)"
      using s z byte_final_lt [OF False] by (simp add: not_le)
    finally show ?thesis by (simp only: ucast_byte_low [OF lt])
  qed
qed

lemma ReadUvarint_uvarint:
  assumes "unat y < 2 ^ 63"
  shows "ReadUvarint (uvarint y @ r) = Inr (y, r)"
  using ReadUvarint_loop_uvarint [of 0 9 y 0 r] assms by (simp add: ReadUvarint_def)


lemma length_uvarint_le:
  "0 < k \<Longrightarrow> unat y < 2 ^ (7 * k) \<Longrightarrow> length (uvarint y) \<le> k"
proof (induction y arbitrary: k rule: uvarint.induct)
  case (1 x)
  show ?case
  proof (cases "0x80 \<le> x")
    case True
    then have "128 \<le> unat x" by (simp add: word_le_nat_alt)
    with "1.prems" have "1 < k" by (cases "k = 1") auto
    then obtain k' where k': "k = Suc k'" "0 < k'" by (cases k) auto
    have "unat (drop_bit 7 x) < 2 ^ (7 * k')"
      using "1.prems"(2) k' drop7_bound [of x "7 * k'"] by (simp add: add.commute)
    then have "length (uvarint (drop_bit 7 x)) \<le> k'"
      using "1.IH" [OF True, of k'] k' by simp
    then show ?thesis
      using k' by (simp add: uvarint_big [OF True])
  next
    case False
    then show ?thesis
      using "1.prems"(1) by (simp add: uvarint_small)
  qed
qed

lemma length_uvarint_le_10: "length (uvarint y) \<le> 10"
proof -
  have "unat y < 2 ^ 64" using unsigned_less [of y] by simp
  also have "(2::nat) ^ 64 \<le> 2 ^ (7 * 10)" by simp
  finally show ?thesis using length_uvarint_le [of 10 y] by simp
qed

lemma length_uvarint_pos: "0 < length (uvarint y)"
  by (cases "0x80 \<le> y") (simp_all add: uvarint_big uvarint_small)

lemma PutUvarint_loop_uvarint:
  "i + length (uvarint x) \<le> length buf \<Longrightarrow>
   PutUvarint_loop buf i x
     = Some (take i buf @ uvarint x @ drop (i + length (uvarint x)) buf, i + length (uvarint x))"
proof (induction x arbitrary: buf i rule: uvarint.induct)
  case (1 x)
  show ?case
  proof (cases "0x80 \<le> x")
    case True
    have u: "uvarint x = (ucast x OR 0x80) # uvarint (drop_bit 7 x)"
      using True by (rule uvarint_big)
    have len: "length (uvarint x) = Suc (length (uvarint (drop_bit 7 x)))"
      by (simp add: u)
    have i: "i < length buf" using "1.prems" len by simp
    have "PutUvarint_loop buf i x
        = PutUvarint_loop (buf[i := ucast x OR 0x80]) (i + 1) (drop_bit 7 x)"
      using True i by (rule PutUvarint_loop_big)
    also have "\<dots> = Some (take (i + 1) (buf[i := ucast x OR 0x80]) @ uvarint (drop_bit 7 x)
          @ drop (i + 1 + length (uvarint (drop_bit 7 x))) (buf[i := ucast x OR 0x80]),
        i + 1 + length (uvarint (drop_bit 7 x)))"
      using "1.IH" [OF True, of "i + 1" "buf[i := ucast x OR 0x80]"] "1.prems" len by simp
    also have "take (i + 1) (buf[i := ucast x OR 0x80]) = take i buf @ [ucast x OR 0x80]"
      using i by (simp add: take_Suc_conv_app_nth)
    also have "drop (i + 1 + length (uvarint (drop_bit 7 x))) (buf[i := ucast x OR 0x80])
        = drop (i + length (uvarint x)) buf"
      by (simp add: len)
    finally show ?thesis by (simp add: u)
  next
    case False
    have u: "uvarint x = [ucast x]"
      using False by (rule uvarint_small)
    have i: "i < length buf" using "1.prems" u by simp
    have "PutUvarint_loop buf i x = Some (buf[i := ucast x], i + 1)"
      using False i by (rule PutUvarint_loop_small)
    also have "buf[i := ucast x] = take i buf @ [ucast x] @ drop (i + 1) buf"
      using i by (simp add: upd_conv_take_nth_drop)
    finally show ?thesis by (simp add: u)
  qed
qed

lemma PutUvarint_loop_short:
  "length buf < i + length (uvarint x) \<Longrightarrow> PutUvarint_loop buf i x = None"
proof (induction x arbitrary: buf i rule: uvarint.induct)
  case (1 x)
  show ?case
  proof (cases "0x80 \<le> x")
    case True
    have u: "uvarint x = (ucast x OR 0x80) # uvarint (drop_bit 7 x)"
      using True by (rule uvarint_big)
    show ?thesis
    proof (cases "i < length buf")
      case i: True
      have "PutUvarint_loop buf i x
          = PutUvarint_loop (buf[i := ucast x OR 0x80]) (i + 1) (drop_bit 7 x)"
        using True i by (rule PutUvarint_loop_big)
      also have "\<dots> = None"
        using "1.IH" [OF True, of "buf[i := ucast x OR 0x80]" "i + 1"] "1.prems" u by simp
      finally show ?thesis .
    next
      case False
      then show ?thesis by (rule PutUvarint_loop_full)
    qed
  next
    case False
    have u: "uvarint x = [ucast x]"
      using False by (rule uvarint_small)
    have "\<not> i < length buf" using "1.prems" u by simp
    then show ?thesis by (rule PutUvarint_loop_full)
  qed
qed

lemma PutUvarint_uvarint:
  "length (uvarint x) \<le> length buf \<Longrightarrow>
   PutUvarint buf x = Some (uvarint x @ drop (length (uvarint x)) buf, length (uvarint x))"
  using PutUvarint_loop_uvarint [of 0 x buf] by (simp add: PutUvarint_def)

lemma PutUvarint_Some:
  assumes "PutUvarint buf x = Some (buf', n)"
  shows "n = length (uvarint x) \<and> n \<le> length buf \<and> buf' = uvarint x @ drop n buf"
proof (cases "length (uvarint x) \<le> length buf")
  case True
  then show ?thesis using assms PutUvarint_uvarint [OF True] by auto
next
  case False
  then have "PutUvarint buf x = None"
    using PutUvarint_loop_short [of buf 0 x] by (simp add: PutUvarint_def)
  then show ?thesis using assms by simp
qed

lemma PutUvarint_at_uvarint:
  "n + length (uvarint x) \<le> length buf \<Longrightarrow>
   PutUvarint_at buf n x
     = Some (take n buf @ uvarint x @ drop (n + length (uvarint x)) buf, n + length (uvarint x))"
  using PutUvarint_uvarint [of x "drop n buf"]
  by (simp add: PutUvarint_at_def add.commute)



lemma bit_below:
  assumes "(w::uint64) < 2 ^ k" and "bit w n"
  shows "n < k"
proof -
  have "w AND mask k = w" by (rule less_mask_eq [OF assms(1)])
  then have "bit (w AND mask k) n" using assms(2) by simp
  then show ?thesis by (simp add: bit_and_iff bit_mask_iff)
qed

lemma tag_lt_8: "(tag::uint64) \<le> 7 \<Longrightarrow> tag < 2 ^ 3"
  by (simp add: word_le_nat_alt word_less_nat_alt)

lemma header_and:
  assumes "tag \<le> 7"
  shows "(push_bit 3 (sid::uint64) OR (tag::uint64)) AND 7 = tag"
proof (rule bit_eqI)
  fix n
  have m: "(7::uint64) = mask 3" by (simp add: mask_eq_exp_minus_1)
  have t: "bit tag n \<Longrightarrow> n < 3" using bit_below [OF tag_lt_8 [OF assms]] .
  show "bit ((push_bit 3 sid OR tag) AND 7) n = bit tag n"
    unfolding m using t by (auto simp add: bit_and_iff bit_or_iff bit_push_bit_iff bit_mask_iff)
qed

lemma header_drop:
  assumes "sid < 2 ^ 60" and "tag \<le> 7"
  shows "drop_bit 3 (push_bit 3 (sid::uint64) OR (tag::uint64)) = sid"
proof (rule bit_eqI)
  fix n
  have t: "\<not> bit tag (3 + n)" using bit_below [OF tag_lt_8 [OF assms(2)], of "3 + n"] by auto
  have s: "bit sid n \<Longrightarrow> n < 60" using bit_below [OF assms(1)] .
  show "bit (drop_bit 3 (push_bit 3 sid OR tag)) n = bit sid n"
    using t s by (auto simp add: bit_drop_bit_eq bit_or_iff bit_push_bit_iff add.commute)
qed

lemma header_bound:
  assumes "sid < 2 ^ 60" and "tag \<le> 7"
  shows "unat (push_bit 3 (sid::uint64) OR (tag::uint64)) < 2 ^ 63"
proof -
  have "take_bit 63 (push_bit 3 sid OR tag) = push_bit 3 sid OR tag"
  proof (rule bit_eqI)
    fix n
    have t: "bit tag n \<Longrightarrow> n < 3" using bit_below [OF tag_lt_8 [OF assms(2)]] .
    have s: "bit sid (n - 3) \<Longrightarrow> n - 3 < 60" using bit_below [OF assms(1)] .
    show "bit (take_bit 63 (push_bit 3 sid OR tag)) n = bit (push_bit 3 sid OR tag) n"
      using t s by (auto simp add: bit_take_bit_iff bit_or_iff bit_push_bit_iff)
  qed
  then have "unat (push_bit 3 sid OR tag) = take_bit 63 (unat (push_bit 3 sid OR tag))"
    by (metis unsigned_take_bit_eq)
  also have "\<dots> < 2 ^ 63" by (rule take_bit_nat_less_exp)
  finally show ?thesis .
qed

lemma readNextHeader_uvarint:
  assumes "sid < 2 ^ 60" and "tag \<le> 7"
  shows "readNextHeader (uvarint (push_bit 3 sid OR tag) @ r) = Inr (sid, tag, r)"
  using ReadUvarint_uvarint [OF header_bound [OF assms], of r] header_drop [OF assms] header_and [OF assms(2)]
  by (simp add: readNextHeader_def)


lemma PutUvarint_at_props:
  assumes "n + length (uvarint x) \<le> length buf"
  shows "\<exists>buf'. PutUvarint_at buf n x = Some (buf', n + length (uvarint x)) \<and>
           length buf' = length buf \<and>
           take (n + length (uvarint x)) buf' = take n buf @ uvarint x"
proof -
  let ?k = "length (uvarint x)"
  let ?b = "take n buf @ uvarint x @ drop (n + ?k) buf"
  have 1: "PutUvarint_at buf n x = Some (?b, n + ?k)"
    by (rule PutUvarint_at_uvarint [OF assms])
  have 2: "length ?b = length buf" using assms by simp
  have 3: "take (n + ?k) ?b = take n buf @ uvarint x" using assms by simp
  show ?thesis using 1 2 3 by blast
qed

lemma copy_at_props:
  assumes "n + length src \<le> length buf"
  shows "\<exists>buf'. copy_at buf n src = Some (buf', n + length src) \<and>
           length buf' = length buf \<and>
           take (n + length src) buf' = take n buf @ src"
proof -
  have k: "min (length buf - n) (length src) = length src" using assms by simp
  have n: "n \<le> length buf" using assms by simp
  let ?b = "take n buf @ src @ drop (n + length src) buf"
  have 1: "copy_at buf n src = Some (?b, n + length src)"
    using n k by (simp add: copy_at_def Let_def)
  have 2: "length ?b = length buf" using assms by simp
  have 3: "take (n + length src) ?b = take n buf @ src" using assms by simp
  show ?thesis using 1 2 3 by blast
qed

lemma tag_cases:
  assumes "(tag::uint64) \<le> 7"
  shows "tag = 0 \<or> tag = 1 \<or> tag = 2 \<or> tag = 3 \<or> tag = 4 \<or> tag = 5 \<or> tag = 6 \<or> tag = 7"
proof -
  have "unat tag \<le> 7" using assms by (simp add: word_le_nat_alt)
  then have "unat tag = 0 \<or> unat tag = 1 \<or> unat tag = 2 \<or> unat tag = 3 \<or> unat tag = 4
      \<or> unat tag = 5 \<or> unat tag = 6 \<or> unat tag = 7" by arith
  then show ?thesis by (auto simp add: word_unat_eq_iff)
qed

lemma round_tag_table:
  assumes "(tag::uint64) \<le> 7"
  shows "round_tag tag = [0, 2, 2, 4, 4, 6, 6, 8] ! unat tag"
  using tag_cases [OF assms] by (auto simp add: round_tag_def)

lemma readNextHeader_tag_le:
  assumes "readNextHeader r = Inr (chID, tag, r')"
  shows "tag \<le> 7"
proof -
  from assms obtain h where "tag = h AND 7"
    by (auto simp add: readNextHeader_def split: sum.splits)
  then show ?thesis by (simp add: word_and_le1)
qed

section \<open>The header round trip\<close>

text \<open>
  Claim C4, as amended. For every stream id below \<open>2 ^ 60\<close> and every tag in 0..7, the
  bytes \<open>PutUvarint\<close> writes for the header \<^verbatim>\<open>(stream_id << 3) | tag\<close>, followed by any
  further input, are decoded by \<open>readNextHeader\<close> to the same stream id and tag, and the
  further input is what remains.
\<close>

theorem C4_header_roundtrip:
  assumes "sid < 2 ^ 60" and "tag \<le> 7"
      and "PutUvarint buf (push_bit 3 sid OR tag) = Some (buf', n)"
  shows "readNextHeader (take n buf' @ r) = Inr (sid, tag, r)"
proof -
  from PutUvarint_Some [OF assms(3)]
  have "take n buf' = uvarint (push_bit 3 sid OR tag)" by simp
  then show ?thesis using readNextHeader_uvarint [OF assms(1,2), of r] by simp
qed

text \<open>
  The round trip of the header of stream 300 with tag 5, in a buffer of ten bytes.
\<close>

theorem C4_header_roundtrip_witness:
  "PutUvarint (replicate 10 0) (push_bit 3 300 OR 5) = Some ([229, 18, 0, 0, 0, 0, 0, 0, 0, 0], 2) \<and>
   readNextHeader (take 2 [229, 18, 0, 0, 0, 0, 0, 0, 0, 0] @ [7, 7]) = Inr (300, 5, [7, 7])"
proof -
  have p: "PutUvarint (replicate 10 0) (push_bit 3 300 OR 5) = Some ([229, 18, 0, 0, 0, 0, 0, 0, 0, 0], 2)"
    by code_simp
  have s: "(300::uint64) < 2 ^ 60" by simp
  have t: "(5::uint64) \<le> 7" by simp
  show ?thesis using p C4_header_roundtrip [OF s t p, of "[7, 7]"] by simp
qed

text \<open>
  Claim C4 as stated fails for large stream ids: the header of stream \<open>2 ^ 60\<close> has 64
  bits, which the decoder refuses, and the shift drops the top bits of stream \<open>2 ^ 61\<close>,
  which comes back as stream 0.
\<close>

theorem C4_counterexample:
  "readNextHeader (uvarint (push_bit 3 (2 ^ 60) OR 0)) = Inl ErrOverflow \<and>
   readNextHeader (uvarint (push_bit 3 (2 ^ 61) OR 0)) = Inr (0, 0, [])"
  by code_simp

section \<open>The outbound buffer is large enough\<close>

lemma getBufferOutbound_length:
  "getBufferOutbound sel len t c mp = Ok buf mp1 \<Longrightarrow> 0 \<le> len \<and> length buf = nat len"
  by (auto simp add: getBufferOutbound_def getBuffer_def split: select_case.splits if_splits)


lemma sendMsg_fill_in_bounds:
  assumes "length data + 20 \<le> length buf"
  shows "\<exists>buf' n. sendMsg_fill buf header data = Some (buf', n) \<and>
           n \<le> length buf' \<and> length buf' = length buf \<and> n \<le> length data + 20 \<and>
           take n buf' = uvarint header @ uvarint (word_of_nat (length data)) @ data"
proof -
  let ?a = "length (uvarint header)"
  let ?l = "word_of_nat (length data) :: uint64"
  let ?b = "length (uvarint ?l)"
  have a: "?a \<le> 10" by (rule length_uvarint_le_10)
  have b: "?b \<le> 10" by (rule length_uvarint_le_10)
  from a assms have "0 + ?a \<le> length buf" by simp
  from PutUvarint_at_props [OF this] obtain buf1 where
    1: "PutUvarint_at buf 0 header = Some (buf1, ?a)" "length buf1 = length buf"
       "take ?a buf1 = uvarint header" by auto
  from a b assms 1(2) have "?a + ?b \<le> length buf1" by simp
  from PutUvarint_at_props [OF this] obtain buf2 where
    2: "PutUvarint_at buf1 ?a ?l = Some (buf2, ?a + ?b)" "length buf2 = length buf1"
       "take (?a + ?b) buf2 = take ?a buf1 @ uvarint ?l" by auto
  from a b assms 1(2) 2(2) have "?a + ?b + length data \<le> length buf2" by simp
  from copy_at_props [OF this] obtain buf3 where
    3: "copy_at buf2 (?a + ?b) data = Some (buf3, ?a + ?b + length data)"
       "length buf3 = length buf2"
       "take (?a + ?b + length data) buf3 = take (?a + ?b) buf2 @ data" by auto
  have n: "?a + ?b + length data \<le> length buf3"
    using a b assms 1(2) 2(2) 3(2) by simp
  have "sendMsg_fill buf header data = Some (buf3, ?a + ?b + length data)"
    using 1(1) 2(1) 3(1) n by (simp add: sendMsg_fill_def)
  moreover have "take (?a + ?b + length data) buf3 = uvarint header @ uvarint ?l @ data"
    using 1(3) 2(3) 3(3) by simp
  moreover have "length buf3 = length buf" using 1(2) 2(2) 3(2) by simp
  moreover have "?a + ?b + length data \<le> length data + 20" using a b by simp
  ultimately show ?thesis using n by blast
qed



lemma putBufferOutbound_not_Panic: "putBufferOutbound mp \<noteq> Panic"
  by (simp add: putBufferOutbound_def)

lemma sendMsg_not_Panic: "sendMsg sel1 sel2 t c header data mp \<noteq> Panic"
proof (cases "getBufferOutbound sel1 (int (length data) + 20) t c mp")
  case (Ok buf mp1)
  from getBufferOutbound_length [OF Ok] have "length data + 20 \<le> length buf" by simp
  from sendMsg_fill_in_bounds [OF this, of header] obtain buf' n where
    f: "sendMsg_fill buf header data = Some (buf', n)" by blast
  show ?thesis
    using Ok f putBufferOutbound_not_Panic [of mp1]
    by (cases sel2; cases "putBufferOutbound mp1") (simp_all add: sendMsg_def)
next
  case (Err e mp1)
  then show ?thesis by (simp add: sendMsg_def)
next
  case Panic
  then show ?thesis
    by (auto simp add: getBufferOutbound_def getBuffer_def split: select_case.splits if_splits)
next
  case Blocked
  then show ?thesis by (simp add: sendMsg_def)
qed

text \<open>
  Claim C10. In a buffer of at least \<^verbatim>\<open>len(data)+20\<close> bytes the three writes of
  \<open>sendMsg\<close> stay in bounds for every header and every payload: the fill does not
  panic, the length \<open>n\<close> of the slice put on the write queue is at most the length of the
  buffer (and at most \<^verbatim>\<open>len(data)+20\<close>), and the slice holds the varint of the header,
  the varint of the length and the whole payload. \<open>sendMsg\<close>, which asks for a buffer of
  \<^verbatim>\<open>len(data)+20\<close> bytes, never panics.
\<close>

theorem C10_sendMsg_buffer_in_bounds:
  assumes "length data + 20 \<le> length buf"
  shows "(\<exists>buf' n. sendMsg_fill buf header data = Some (buf', n) \<and>
           n \<le> length buf' \<and> length buf' = length buf \<and> n \<le> length data + 20 \<and>
           take n buf' = uvarint header @ uvarint (word_of_nat (length data)) @ data)
         \<and> sendMsg sel1 sel2 t c header data mp \<noteq> Panic"
  using sendMsg_fill_in_bounds [OF assms] sendMsg_not_Panic by blast

text \<open>
  A header of ten bytes and a payload of three in a buffer of 23 bytes, and the same
  frame sent on a fresh session.
\<close>

theorem C10_sendMsg_buffer_in_bounds_witness:
  "(\<exists>buf' n. sendMsg_fill (replicate 23 0) (- 1) [1, 2, 3] = Some (buf', n) \<and>
     n \<le> length buf' \<and> length buf' = 23 \<and> n \<le> 23 \<and>
     take n buf' = uvarint (- 1) @ uvarint 3 @ [1, 2, 3])
   \<and> sendMsg SelSend SelSend None None (- 1) [1, 2, 3] (fresh_session []) \<noteq> Panic"
  using C10_sendMsg_buffer_in_bounds [of "[1, 2, 3]" "replicate 23 0" "- 1"
      SelSend SelSend None None "fresh_session []"] by simp

section \<open>The reservations of NewMultiplex\<close>

lemma reservation_calls_Suc:
  "reservation_calls cfg (Suc n)
     = reservation_calls cfg n @ [ReserveMemory (go_int (2 * MaxMessageSize cfg)) (slot_prio n)]"
  by (simp add: reservation_calls_def slot_prio_def split: nat.splits)

lemma reserve_loop_run:
  assumes "mm_calls mp = reservation_calls cfg j"
      and "j \<le> k"
      and "\<forall>i<k. memoryManager mp (reservation_calls cfg (Suc i)) = None"
      and "int k \<le> MaxBuffers cfg \<or> k = 0"
      and "int k < MaxBuffers cfg \<longrightarrow> memoryManager mp (reservation_calls cfg (Suc k)) = Some e"
  shows "\<exists>mp'. reserve_loop cfg (int j) j mp
           = (k, if int k < MaxBuffers cfg then Some e else None, mp') \<and>
           mm_calls mp' = reservation_calls cfg (if int k < MaxBuffers cfg then Suc k else k)"
  using assms
proof (induction "k - j" arbitrary: j mp)
  case 0
  then have jk: "j = k" by simp
  show ?case
  proof (cases "int k < MaxBuffers cfg")
    case True
    then show ?thesis
      using "0.prems"(1,5) jk
      by (simp add: reserve_loop.simps [of cfg "int k" k mp] reservation_calls_Suc Let_def)
  next
    case False
    then show ?thesis
      using "0.prems"(1) jk
      by (simp add: reserve_loop.simps [of cfg "int k" k mp])
  qed
next
  case (Suc d)
  then have jk: "j < k" by simp
  then have i: "int j < MaxBuffers cfg" using Suc.prems(4) by auto
  let ?calls = "mm_calls mp @ [ReserveMemory (go_int (2 * MaxMessageSize cfg)) (slot_prio j)]"
  let ?mp = "mp\<lparr>mm_calls := ?calls,
      reservedMemory := go_int (reservedMemory mp + go_int (2 * MaxMessageSize cfg))\<rparr>"
  have c: "?calls = reservation_calls cfg (Suc j)"
    using Suc.prems(1) by (simp add: reservation_calls_Suc)
  have g: "memoryManager mp ?calls = None"
    using Suc.prems(3) jk c by simp
  have step: "reserve_loop cfg (int j) j mp = reserve_loop cfg (int (Suc j)) (Suc j) ?mp"
    using i g by (simp add: reserve_loop.simps [of cfg "int j" j mp] Let_def add.commute)
  have "\<exists>mp'. reserve_loop cfg (int (Suc j)) (Suc j) ?mp
           = (k, if int k < MaxBuffers cfg then Some e else None, mp') \<and>
           mm_calls mp' = reservation_calls cfg (if int k < MaxBuffers cfg then Suc k else k)"
  proof (rule Suc.hyps(1))
    show "d = k - Suc j" using Suc.hyps(2) by simp
    show "mm_calls ?mp = reservation_calls cfg (Suc j)" using c by simp
    show "Suc j \<le> k" using jk by simp
    show "\<forall>i<k. memoryManager ?mp (reservation_calls cfg (Suc i)) = None"
      using Suc.prems(3) by simp
    show "int k \<le> MaxBuffers cfg \<or> k = 0" using Suc.prems(4) .
    show "int k < MaxBuffers cfg \<longrightarrow> memoryManager ?mp (reservation_calls cfg (Suc k)) = Some e"
      using Suc.prems(5) by simp
  qed
  then show ?case using step by simp
qed

text \<open>
  Claim C3. Let the memory manager grant the first \<open>k\<close> reservations, \<open>k\<close> at most
  \<open>MaxBuffers\<close>, and refuse the next with the error \<open>e\<close> if \<open>k\<close> is less than
  \<open>MaxBuffers\<close>. Then \<open>NewMultiplex\<close> makes exactly the reservations of the
  specification, in order (each of \<^verbatim>\<open>2*MaxMessageSize\<close> bytes, with priorities 255, 192,
  128, ...), up to and including the refused one; the loop ends with \<open>k\<close> slots, which
  become \<open>bufMax\<close> and the capacity of both slot channels; and for \<open>k = 0\<close> the result
  is no session and the reservation error.
\<close>

theorem C3_reservations_by_priority:
  assumes "\<forall>i<k. memoryManager (initial_session con init mm) (reservation_calls cfg (Suc i)) = None"
      and "int k \<le> MaxBuffers cfg \<or> k = 0"
      and "int k < MaxBuffers cfg \<longrightarrow>
             memoryManager (initial_session con init mm) (reservation_calls cfg (Suc k)) = Some e"
  shows "\<exists>mp. reserve_loop cfg 0 0 (initial_session con init mm)
             = (k, if int k < MaxBuffers cfg then Some e else None, mp) \<and>
           mm_calls mp = reservation_calls cfg (if int k < MaxBuffers cfg then Suc k else k) \<and>
           NewMultiplex cfg con init mm
             = (if k = 0 then (None, if 0 < MaxBuffers cfg then Some e else None)
                else (Some (mp\<lparr>bufMax := k, bufIn_cap := k, bufOut_cap := k\<rparr>), None))"
proof -
  have "mm_calls (initial_session con init mm) = reservation_calls cfg 0"
    by (simp add: initial_session_def reservation_calls_def)
  then have "\<exists>mp. reserve_loop cfg (int 0) 0 (initial_session con init mm)
             = (k, if int k < MaxBuffers cfg then Some e else None, mp) \<and>
           mm_calls mp = reservation_calls cfg (if int k < MaxBuffers cfg then Suc k else k)"
    by (rule reserve_loop_run [OF _ _ assms]) simp
  then obtain mp where
    r: "reserve_loop cfg 0 0 (initial_session con init mm)
          = (k, if int k < MaxBuffers cfg then Some e else None, mp)"
    and c: "mm_calls mp = reservation_calls cfg (if int k < MaxBuffers cfg then Suc k else k)"
    by auto
  have "NewMultiplex cfg con init mm
      = (if k = 0 then (None, if 0 < MaxBuffers cfg then Some e else None)
         else (Some (mp\<lparr>bufMax := k, bufIn_cap := k, bufOut_cap := k\<rparr>), None))"
    using r by (simp add: NewMultiplex_def)
  with r c show ?thesis by blast
qed

text \<open>
  With the declared values, a manager refusing the third reservation gives a session of
  two slots after three calls, and one refusing the first gives its error and no session.
\<close>

theorem C3_reservations_by_priority_witness:
  "(\<exists>mp. reserve_loop default_config 0 0 (initial_session [] True (Some (refuse_nth 3 (ErrExternal 1))))
           = (2, Some (ErrExternal 1), mp) \<and>
         mm_calls mp = [ReserveMemory 2097152 255, ReserveMemory 2097152 192, ReserveMemory 2097152 128] \<and>
         NewMultiplex default_config [] True (Some (refuse_nth 3 (ErrExternal 1)))
           = (Some (mp\<lparr>bufMax := 2, bufIn_cap := 2, bufOut_cap := 2\<rparr>), None))
   \<and> NewMultiplex default_config [] True (Some (refuse_nth 1 (ErrExternal 1)))
         = (None, Some (ErrExternal 1))"
proof -
  have a: "\<forall>i<2. memoryManager (initial_session [] True (Some (refuse_nth 3 (ErrExternal 1))))
      (reservation_calls default_config (Suc i)) = None"
    by (simp add: initial_session_def refuse_nth_def reservation_calls_def)
  have b: "int 2 \<le> MaxBuffers default_config \<or> (2::nat) = 0"
    by (simp add: default_config_def)
  have c: "int 2 < MaxBuffers default_config \<longrightarrow>
      memoryManager (initial_session [] True (Some (refuse_nth 3 (ErrExternal 1))))
        (reservation_calls default_config (Suc 2)) = Some (ErrExternal 1)"
    by (simp add: initial_session_def refuse_nth_def reservation_calls_def)
  have s: "reservation_calls default_config 3
      = [ReserveMemory 2097152 255, ReserveMemory 2097152 192, ReserveMemory 2097152 128]"
    by code_simp
  have a0: "\<forall>i<0. memoryManager (initial_session [] True (Some (refuse_nth 1 (ErrExternal 1))))
      (reservation_calls default_config (Suc i)) = None"
    by simp
  have b0: "int 0 \<le> MaxBuffers default_config \<or> (0::nat) = 0" by simp
  have c0: "int 0 < MaxBuffers default_config \<longrightarrow>
      memoryManager (initial_session [] True (Some (refuse_nth 1 (ErrExternal 1))))
        (reservation_calls default_config (Suc 0)) = Some (ErrExternal 1)"
    by (simp add: initial_session_def refuse_nth_def reservation_calls_def)
  show ?thesis
    using C3_reservations_by_priority [OF a b c] C3_reservations_by_priority [OF a0 b0 c0] s
    by (auto simp add: default_config_def)
qed

section \<open>A failed send in NewNamedStream\<close>

lemma getBufferOutbound_Ok:
  "getBufferOutbound sel len t c mp = Ok buf mp1 \<Longrightarrow> mp1 = mp\<lparr>bufOut := bufOut mp + 1\<rparr>"
  by (auto simp add: getBufferOutbound_def split: select_case.splits if_splits option.splits)

lemma getBufferOutbound_Err:
  "getBufferOutbound sel len t c mp = Err e mp1 \<Longrightarrow>
     mp1 = mp \<and> (e = errTimeout \<longrightarrow> chan_ready t)"
  by (auto simp add: getBufferOutbound_def split: select_case.splits if_splits option.splits)

lemma putBufferOutbound_Ok:
  "putBufferOutbound mp = Ok u mp1 \<Longrightarrow> mp1 = mp\<lparr>bufOut := bufOut mp - 1\<rparr>"
  by (auto simp add: putBufferOutbound_def split: if_splits)

lemma putBufferOutbound_not_Err: "putBufferOutbound mp \<noteq> Err e mp1"
  by (simp add: putBufferOutbound_def)

lemma sendMsg_Err:
  assumes "sendMsg sel1 sel2 t c header data mp = Err e mp'"
  shows "channels mp' = channels mp \<and> heap mp' = heap mp \<and> (e = errTimeout \<longrightarrow> chan_ready t)"
proof (cases "getBufferOutbound sel1 (int (length data) + 20) t c mp")
  case (Ok buf mp1)
  then have mp1: "mp1 = mp\<lparr>bufOut := bufOut mp + 1\<rparr>" by (rule getBufferOutbound_Ok)
  obtain buf' n where f: "sendMsg_fill buf header data = Some (buf', n)"
    using assms Ok by (cases "sendMsg_fill buf header data") (auto simp add: sendMsg_def)
  show ?thesis
  proof (cases sel2)
    case SelSend
    then show ?thesis using assms Ok f by (simp add: sendMsg_def split: if_splits)
  next
    case SelCancel
    then show ?thesis
      using assms Ok f mp1
      by (auto simp add: sendMsg_def putBufferOutbound_def split: if_splits)
  next
    case SelTimeout
    then show ?thesis
      using assms Ok f mp1
      by (auto simp add: sendMsg_def putBufferOutbound_def split: if_splits)
  next
    case SelShutdown
    then show ?thesis
      using assms Ok f mp1
      by (auto simp add: sendMsg_def putBufferOutbound_def split: if_splits)
  qed
next
  case (Err e1 mp1)
  then show ?thesis
    using assms getBufferOutbound_Err [OF Err] by (simp add: sendMsg_def)
next
  case Panic
  then show ?thesis using assms by (simp add: sendMsg_def)
next
  case Blocked
  then show ?thesis using assms by (simp add: sendMsg_def)
qed

lemma NewNamedStream_locked_registers:
  assumes "NewNamedStream_locked nm m mp = ((s, header, nm'), mp3)"
  shows "lookup_channel mp3 \<lparr>id_num = nextID mp, initiator = True\<rparr> = Some s \<and> s = length (heap mp)
         \<and> header = push_bit 3 (nextID mp) OR newStreamTag
         \<and> nm' = (if nm = [] then Sprint (nextID mp) else nm)"
  using assms
  by (auto simp add: NewNamedStream_locked_def nextChanID_def newStream_def lookup_channel_def
      Let_def update_conv' map_of_map_restrict)

text \<open>
  Claim C1, as amended. When the \<open>sendMsg\<close> of the NewStream frame returns an error,
  \<open>NewNamedStream\<close> returns no stream and an error: that error, or the error of the
  context when \<open>sendMsg\<close> returned its timeout error. The stream it created stays in the
  session's map.
\<close>

theorem C1_failed_send_leaves_stream_registered:
  assumes "channels mp = Some m"
      and "NewNamedStream_locked nm m mp = ((s, header, nm'), mp3)"
      and "sendMsg sel1 sel2 (Some (ctx \<noteq> None)) None header nm' mp3 = Err err mp4"
  shows "(\<exists>e. NewNamedStream sel1 sel2 ctx nm mp = Err e mp4 \<and>
              (if err = errTimeout then ctx = Some e else e = err))
         \<and> lookup_channel mp4 \<lparr>id_num = nextID mp, initiator = True\<rparr> = Some s"
proof -
  from sendMsg_Err [OF assms(3)]
  have ch: "channels mp4 = channels mp3" and t: "err = errTimeout \<longrightarrow> ctx \<noteq> None"
    by (auto simp add: chan_ready_def)
  have "lookup_channel mp3 \<lparr>id_num = nextID mp, initiator = True\<rparr> = Some s"
    using NewNamedStream_locked_registers [OF assms(2)] by simp
  then have reg: "lookup_channel mp4 \<lparr>id_num = nextID mp, initiator = True\<rparr> = Some s"
    using ch by (simp add: lookup_channel_def)
  have "\<exists>e. NewNamedStream sel1 sel2 ctx nm mp = Err e mp4 \<and>
      (if err = errTimeout then ctx = Some e else e = err)"
    using assms t by (cases ctx) (auto simp add: NewNamedStream_def)
  with reg show ?thesis by blast
qed

lemmas send_defs =
  NewNamedStream_def NewNamedStream_locked_def nextChanID_def newStream_def sendMsg_def
  getBufferOutbound_def putBufferOutbound_def getBuffer_def chan_ready_def lookup_channel_def
  closeNoWait_def fresh_session_def newStreamTag_def Sprint_def Let_def

lemma sendMsg_fill_example: "sendMsg_fill (replicate 21 0) 0 [48] = Some (0 # 1 # 48 # replicate 18 0, 3)"
  by code_simp

lemma decimal_0: "decimal 0 = [48]"
  by code_simp

text \<open>
  Claim C1 as stated fails. A session shut down while the frame waits for the write
  queue returns \<open>ErrShutdown\<close> and the stream is still in the map; with a context that
  is done, the caller receives the context's error, not the timeout error of \<open>sendMsg\<close>,
  and the stream is still in the map.
\<close>

theorem C1_counterexample:
  "(\<exists>mp'. NewNamedStream SelSend SelShutdown None [] (closeNoWait (fresh_session []))
            = Err ErrShutdown mp' \<and>
          lookup_channel mp' \<lparr>id_num = 0, initiator = True\<rparr> = Some 0)
   \<and> (\<exists>mp'. NewNamedStream SelTimeout SelSend (Some (ErrExternal 0)) [] (fresh_session [])
            = Err (ErrExternal 0) mp' \<and>
          lookup_channel mp' \<lparr>id_num = 0, initiator = True\<rparr> = Some 0)"
  by (simp add: send_defs decimal_0 sendMsg_fill_example)

text \<open>
  The first of these two calls, as an instance of the amended claim.
\<close>

theorem C1_failed_send_leaves_stream_registered_witness:
  "\<exists>mp4. NewNamedStream SelSend SelShutdown None [] (closeNoWait (fresh_session []))
            = Err ErrShutdown mp4 \<and>
          lookup_channel mp4 \<lparr>id_num = nextID (closeNoWait (fresh_session [])), initiator = True\<rparr>
            = Some 0"
proof -
  let ?mp = "closeNoWait (fresh_session [])"
  obtain mp3 where mp3: "mp3 = snd (NewNamedStream_locked [] [] ?mp)" by simp
  have h1: "channels ?mp = Some []" by (simp add: send_defs)
  have h2: "NewNamedStream_locked [] [] ?mp = ((0, 0, [48]), mp3)"
    by (simp add: mp3 send_defs decimal_0)
  obtain mp4 where mp4: "mp4 = mp3\<lparr>bufOut := 0\<rparr>" by simp
  have h3: "sendMsg SelSend SelShutdown (Some (None \<noteq> (None :: error option))) None 0 [48] mp3
      = Err ErrShutdown mp4"
    by (simp add: mp3 mp4 send_defs sendMsg_fill_example)
  show ?thesis
    using C1_failed_send_leaves_stream_registered [OF h1 h2 h3] by auto
qed

section \<open>Facts about the receive loop\<close>

lemma update_stream_ex:
  "\<exists>h. update_stream s f mp = mp\<lparr>heap := h\<rparr> \<and> length h = length (heap mp)"
proof (cases "s < length (heap mp)")
  case True
  then have "update_stream s f mp = mp\<lparr>heap := (heap mp)[s := f (heap mp ! s)]\<rparr>"
    by (simp add: update_stream_def)
  then show ?thesis by (intro exI [of _ "(heap mp)[s := f (heap mp ! s)]"]) simp
next
  case False
  then have "update_stream s f mp = mp\<lparr>heap := heap mp\<rparr>"
    by (simp add: update_stream_def)
  then show ?thesis by (intro exI [of _ "heap mp"]) simp
qed

lemma cancel_both_heap:
  "\<exists>h. cancelWrite s e (cancelRead s e' mp) = mp\<lparr>heap := h\<rparr> \<and> length h = length (heap mp)"
proof -
  obtain h1 where h1: "cancelRead s e' mp = mp\<lparr>heap := h1\<rparr>" "length h1 = length (heap mp)"
    unfolding cancelRead_def using update_stream_ex by blast
  obtain h2 where h2: "cancelWrite s e (mp\<lparr>heap := h1\<rparr>) = (mp\<lparr>heap := h1\<rparr>)\<lparr>heap := h2\<rparr>"
      "length h2 = length (heap (mp\<lparr>heap := h1\<rparr>))"
    unfolding cancelWrite_def using update_stream_ex by blast
  show ?thesis using h1 h2 by (intro exI [of _ h2]) simp
qed

lemma cancel_all_heap:
  "\<exists>h. foldl (\<lambda>acc (k, s). cancelWrite s ErrStreamReset (cancelRead s ErrStreamReset acc)) mp chans
         = mp\<lparr>heap := h\<rparr> \<and> length h = length (heap mp)"
proof (induction chans arbitrary: mp)
  case Nil
  show ?case by (rule exI [of _ "heap mp"]) simp
next
  case (Cons c chans)
  obtain k s where c: "c = (k, s)" by (cases c)
  obtain h where h: "cancelWrite s ErrStreamReset (cancelRead s ErrStreamReset mp) = mp\<lparr>heap := h\<rparr>"
      "length h = length (heap mp)"
    using cancel_both_heap by blast
  from Cons.IH [of "mp\<lparr>heap := h\<rparr>"] obtain h' where
    "foldl (\<lambda>acc (k, s). cancelWrite s ErrStreamReset (cancelRead s ErrStreamReset acc)) (mp\<lparr>heap := h\<rparr>) chans
       = mp\<lparr>heap := h'\<rparr>" "length h' = length h"
    by auto
  then show ?case using c h by (intro exI [of _ h']) simp
qed

lemma cleanup_fields:
  "closed (cleanup mp) \<and> shutdown (cleanup mp) \<and>
   channels (cleanup mp) = None \<and>
   shutdownErr (cleanup mp) = Some (case shutdownErr mp of None \<Rightarrow> ErrShutdown | Some e \<Rightarrow> e) \<and>
   length (heap (cleanup mp)) = length (heap mp)"
proof -
  let ?mp2 = "(closeNoWait mp)\<lparr>channels := None\<rparr>"
  let ?chans = "case channels (closeNoWait mp) of None \<Rightarrow> [] | Some m \<Rightarrow> m"
  obtain h where h:
    "foldl (\<lambda>acc (k, s). cancelWrite s ErrStreamReset (cancelRead s ErrStreamReset acc)) ?mp2 ?chans
       = ?mp2\<lparr>heap := h\<rparr>" "length h = length (heap ?mp2)"
    using cancel_all_heap [of ?mp2 ?chans] by blast
  have c: "cleanup mp =
      (if shutdownErr (?mp2\<lparr>heap := h\<rparr>) = None
       then ?mp2\<lparr>heap := h, shutdownErr := Some ErrShutdown\<rparr>
       else ?mp2\<lparr>heap := h\<rparr>)\<lparr>closed := True\<rparr>"
    using h(1) by (simp add: cleanup_def Let_def)
  show ?thesis
    using h(2) by (cases "shutdownErr mp") (simp_all add: c closeNoWait_def)
qed

lemma loop_Return:
  assumes "handleIncoming_round cfg (env k) mp = Return mp'"
  shows "handleIncoming_loop cfg env k mp = Some (Finished (cleanup mp'))"
  using assms by (simp add: handleIncoming_loop.simps [of cfg env k mp])

lemma loop_Continue:
  assumes "handleIncoming_round cfg (env k) mp = Continue mp'"
  shows "handleIncoming_loop cfg env k mp = handleIncoming_loop cfg env (k + 1) mp'"
  using assms by (simp add: handleIncoming_loop.simps [of cfg env k mp])

lemma loop_Blocked:
  assumes "handleIncoming_round cfg (env k) mp = RoundBlocked"
  shows "handleIncoming_loop cfg env k mp = Some Hung"
  using assms by (simp add: handleIncoming_loop.simps [of cfg env k mp])

lemma loop_Return_fields:
  assumes "handleIncoming_round cfg (env k) mp = Return mp'" and "shutdownErr mp' = Some e"
  shows "\<exists>mp''. handleIncoming_loop cfg env k mp = Some (Finished mp'') \<and>
           shutdownErr mp'' = Some e \<and> closed mp'' \<and> shutdown mp'' \<and> channels mp'' = None \<and>
           length (heap mp'') = length (heap mp')"
  using loop_Return [of cfg env k mp mp'] assms cleanup_fields [of mp'] by simp

lemma limit_less:
  assumes "0 \<le> (M::int)" and "M < 2 ^ 63"
  shows "((word_of_int M :: uint64) < l) = (M < int (unat l))"
proof -
  have "uint (word_of_int M :: uint64) = M"
    using assms by (simp add: uint_word_of_int)
  then show ?thesis by (simp add: word_less_def)
qed

lemma sint_small:
  assumes "int (unat (l::uint64)) \<le> M" and "M < 2 ^ 63"
  shows "sint l = int (unat l)"
proof -
  have "uint l < 2 ^ 63" using assms by simp
  moreover have "- (2 ^ 63) \<le> uint l" by (rule order_trans [of _ 0]) simp_all
  ultimately have "signed_take_bit 63 (uint l) = uint l"
    by (simp add: signed_take_bit_int_eq_self)
  then show ?thesis by (simp add: sint_uint)
qed


lemma readNext_too_large:
  assumes "ReadUvarint (input mp) = Inr (l, r')" and "(word_of_int (MaxMessageSize cfg) :: uint64) < l"
  shows "readNext cfg sel mp = Err ErrMessageSizeTooLarge (mp\<lparr>input := r'\<rparr>)"
  using assms by (simp add: readNext_def)

lemma readNext_zero:
  assumes "ReadUvarint (input mp) = Inr (0, r')"
  shows "readNext cfg sel mp = Ok [] (mp\<lparr>input := r'\<rparr>)"
  using assms by (simp add: readNext_def)

lemma getBufferInbound_Err:
  "getBufferInbound sel len mp = Err e mp' \<Longrightarrow> e = ErrShutdown"
  by (auto simp add: getBufferInbound_def split: select_case.splits if_splits option.splits)

lemma readNext_not_too_large:
  assumes "ReadUvarint (input mp) = Inr (l, r')"
      and "\<not> (word_of_int (MaxMessageSize cfg) :: uint64) < l"
  shows "readNext cfg sel mp \<noteq> Err ErrMessageSizeTooLarge mp'"
proof (cases "l = 0")
  case True
  then show ?thesis using assms by (simp add: readNext_def)
next
  case False
  let ?mp1 = "mp\<lparr>input := r'\<rparr>"
  show ?thesis
  proof (cases "getBufferInbound sel (sint l) ?mp1")
    case (Ok buf mp2)
    then show ?thesis
      using assms False
      by (cases "ReadFull (input mp2) (length buf)")
         (auto simp add: readNext_def ReadFull_def split: if_splits)
  next
    case (Err e mp2)
    then show ?thesis
      using assms False getBufferInbound_Err [OF Err] by (simp add: readNext_def)
  next
    case Panic
    then show ?thesis using assms False by (simp add: readNext_def)
  next
    case Blocked
    then show ?thesis using assms False by (simp add: readNext_def)
  qed
qed

lemma readNext_accept:
  assumes "ReadUvarint (input mp) = Inr (l, r')"
      and "\<not> (word_of_int (MaxMessageSize cfg) :: uint64) < l"
      and "l \<noteq> 0" and "sint l = int (unat l)"
      and "bufIn mp < bufIn_cap mp" and "unat l \<le> length r'"
  shows "readNext cfg SelSend mp
           = Ok (take (unat l) r') (mp\<lparr>input := drop (unat l) r', bufIn := bufIn mp + 1\<rparr>)"
  using assms
  by (simp add: readNext_def getBufferInbound_def getBuffer_def ReadFull_def)

lemma update_stream_input: "input (update_stream s f mp) = input mp"
  by (simp add: update_stream_def)

lemma cancelRead_input: "input (cancelRead s e mp) = input mp"
  by (simp add: cancelRead_def update_stream_input)

lemma cancelWrite_input: "input (cancelWrite s e mp) = input mp"
  by (simp add: cancelWrite_def update_stream_input)

lemma Reset_input: "input (Reset s mp) = input mp"
  by (simp add: Reset_def Let_def update_stream_input cancelRead_input cancelWrite_input)

lemma putBufferInbound_input: "putBufferInbound mp = Ok u mp' \<Longrightarrow> input mp' = input mp"
  by (auto simp add: putBufferInbound_def split: if_splits)

lemma hand_off_input: "hand_off sel s b mp = Continue mp' \<Longrightarrow> input mp' = input mp"
  by (auto simp add: hand_off_def Let_def update_stream_input Reset_input
      split: if_splits select_case.splits outcome.splits dest: putBufferInbound_input)

lemma dispatch_input:
  assumes "dispatch env ch tag b mp = Continue mp'"
  shows "input mp' = input mp"
proof -
  consider "tag = newStreamTag" | "tag \<noteq> newStreamTag" "tag = resetTag"
    | "tag \<noteq> newStreamTag" "tag \<noteq> resetTag" "tag = closeTag"
    | "tag \<noteq> newStreamTag" "tag \<noteq> resetTag" "tag \<noteq> closeTag" "tag = messageTag"
    | "tag \<noteq> newStreamTag" "tag \<noteq> resetTag" "tag \<noteq> closeTag" "tag \<noteq> messageTag"
    by blast
  then show ?thesis
  proof cases
    case 1
    then show ?thesis
      using assms
      by (auto simp add: dispatch_def Let_def newStream_def
          split: option.splits outcome.splits select_case.splits if_splits prod.splits
          dest: putBufferInbound_input)
  next
    case 2
    then show ?thesis
      using assms
      by (auto simp add: dispatch_def Let_def cancelRead_input cancelWrite_input split: option.splits)
  next
    case 3
    then show ?thesis
      using assms
      by (auto simp add: dispatch_def Let_def update_stream_input split: option.splits if_splits)
  next
    case 4
    then show ?thesis
      using assms
      by (auto simp add: dispatch_def Let_def split: option.splits outcome.splits
          dest: putBufferInbound_input hand_off_input)
  next
    case 5
    then show ?thesis
      using assms
      by (auto simp add: dispatch_def Let_def Reset_input split: option.splits)
  qed
qed

lemma ReadUvarint_loop_consumes:
  "ReadUvarint_loop s x r = Inr (y, r') \<Longrightarrow> length r' < length r"
proof (induction r arbitrary: s x)
  case Nil
  then show ?case by simp
next
  case (Cons b r)
  then show ?case by (fastforce split: if_splits)
qed

lemma readNextHeader_consumes:
  "readNextHeader r = Inr (chID, tag, r') \<Longrightarrow> length r' < length r"
  by (auto simp add: readNextHeader_def ReadUvarint_def split: sum.splits
      dest: ReadUvarint_loop_consumes)

lemma readNext_input:
  assumes "readNext cfg sel mp = Ok b mp'"
  shows "length (input mp') \<le> length (input mp)"
proof (cases "ReadUvarint (input mp)")
  case (Inl e)
  then show ?thesis using assms by (simp add: readNext_def)
next
  case (Inr p)
  obtain l r where p: "p = (l, r)" by (cases p)
  have r: "length r < length (input mp)"
    using Inr p ReadUvarint_loop_consumes [of 0 0 "input mp" l r] by (simp add: ReadUvarint_def)
  show ?thesis
    using assms Inr p r
    by (auto simp add: readNext_def getBufferInbound_def ReadFull_def Let_def
        split: if_splits select_case.splits option.splits)
qed

lemma round_consumes:
  assumes "handleIncoming_round cfg c mp = Continue mp'"
  shows "length (input mp') < length (input mp)"
proof (cases "readNextHeader (input mp)")
  case (Inl e)
  then show ?thesis using assms by (simp add: handleIncoming_round_def)
next
  case (Inr p)
  obtain chID tag r where p: "p = (chID, tag, r)" by (cases p)
  have r: "length r < length (input mp)"
    using Inr p readNextHeader_consumes by simp
  show ?thesis
  proof (cases "readNext cfg (slot c) (mp\<lparr>input := r\<rparr>)")
    case (Ok b mp1)
    have "length (input mp1) \<le> length r" using readNext_input [OF Ok] by simp
    moreover have "input mp' = input mp1"
      using assms Inr p Ok dispatch_input by (simp add: handleIncoming_round_def Let_def)
    ultimately show ?thesis using r by simp
  next
    case (Err e mp1)
    then show ?thesis using assms Inr p by (simp add: handleIncoming_round_def Let_def)
  next
    case Panic
    then show ?thesis using assms Inr p by (simp add: handleIncoming_round_def Let_def)
  next
    case Blocked
    then show ?thesis using assms Inr p by (simp add: handleIncoming_round_def Let_def)
  qed
qed

lemma handleIncoming_loop_total:
  "\<exists>res. handleIncoming_loop cfg env k mp = Some res"
proof (induction "length (input mp)" arbitrary: k mp rule: less_induct)
  case less
  show ?case
  proof (cases "handleIncoming_round cfg (env k) mp")
    case (Continue mp')
    have "length (input mp') < length (input mp)" by (rule round_consumes [OF Continue])
    from less [OF this, of "k + 1"] show ?thesis
      using Continue by (simp add: handleIncoming_loop.simps [of cfg env k mp])
  next
    case (Return mp')
    then show ?thesis by (simp add: handleIncoming_loop.simps [of cfg env k mp])
  next
    case RoundPanic
    then show ?thesis by (simp add: handleIncoming_loop.simps [of cfg env k mp])
  next
    case RoundBlocked
    then show ?thesis by (simp add: handleIncoming_loop.simps [of cfg env k mp])
  qed
qed

lemmas read_defs = readNextHeader_def ReadUvarint_def MaxLenUvarint63_def

lemmas round_defs =
  handleIncoming_round_def dispatch_def hand_off_def readNext_def getBufferInbound_def
  getBuffer_def ReadFull_def putBufferInbound_def lookup_channel_def frame_key_def
  remoteIsInitiator_def round_tag_def newStreamTag_def messageTag_def closeTag_def resetTag_def
  update_stream_def newStream_def always_def live_session_def fresh_session_def peer_stream_def
  Let_def

section \<open>The initiator bit and the rounded tag\<close>

text \<open>
  Claim C7. For every header the receive loop decodes, it dispatches on the key
  \<^verbatim>\<open>(chID, !remoteIsInitiator)\<close> with \<^verbatim>\<open>remoteIsInitiator = (tag & 1) == 0\<close>, under which
  \<open>dispatch\<close> looks the stream up in the map, and on the tag plus \<^verbatim>\<open>tag & 1\<close>; the tag
  is one of 0..7, which this rounds to 0, 2, 2, 4, 4, 6, 6, 8.
\<close>

theorem C7_initiator_bit_and_tag_rounding:
  assumes "readNextHeader (input mp) = Inr (chID, tag, r)"
      and "readNext cfg (slot env) (mp\<lparr>input := r\<rparr>) = Ok b mp1"
  shows "handleIncoming_round cfg env mp
           = dispatch env \<lparr>id_num = chID, initiator = \<not> (tag AND 1 = 0)\<rparr> (tag + (tag AND 1)) b mp1
         \<and> remoteIsInitiator tag = (tag AND 1 = 0)
         \<and> tag \<le> 7
         \<and> tag + (tag AND 1) = [0, 2, 2, 4, 4, 6, 6, 8] ! unat tag"
proof -
  have t: "tag \<le> 7" by (rule readNextHeader_tag_le [OF assms(1)])
  have "handleIncoming_round cfg env mp = dispatch env (frame_key chID tag) (round_tag tag) b mp1"
    using assms by (simp add: handleIncoming_round_def)
  then show ?thesis
    using t round_tag_table [OF t]
    by (simp add: frame_key_def round_tag_def remoteIsInitiator_def)
qed

text \<open>
  A frame with tag 3 for stream 0: the key says this side opened the stream, the tag is
  rounded to 4.
\<close>

theorem C7_initiator_bit_and_tag_rounding_witness:
  "handleIncoming_round default_config (always SelSend SelSend SelSend 0) (live_session [3, 0] [] 0)
     = dispatch (always SelSend SelSend SelSend 0) \<lparr>id_num = 0, initiator = True\<rparr> 4 [] (live_session [] [] 0)
   \<and> remoteIsInitiator 3 = False
   \<and> (3::uint64) + (3 AND 1) = [0, 2, 2, 4, 4, 6, 6, 8] ! unat (3::uint64)"
proof -
  let ?env = "always SelSend SelSend SelSend 0"
  have h1: "readNextHeader (input (live_session [3, 0] [] 0)) = Inr (0, 3, [0])"
    by (simp add: round_defs read_defs)
  have h2: "readNext default_config (slot ?env) ((live_session [3, 0] [] 0)\<lparr>input := [0]\<rparr>)
      = Ok [] (live_session [] [] 0)"
    by (simp add: round_defs read_defs)
  show ?thesis
    using C7_initiator_bit_and_tag_rounding [OF h1 h2] by simp
qed

section \<open>The limit on the payload length\<close>

text \<open>
  Claim C2. Let \<open>MaxMessageSize\<close> be a non-negative \<^verbatim>\<open>int\<close> and let a frame declare
  the payload length \<open>l\<close>. If \<open>l\<close> is greater than \<open>MaxMessageSize\<close>, \<open>readNext\<close> returns
  the error "message size too large", the round stores it as the shutdown cause and
  returns, and \<open>handleIncoming\<close> ends with the session closed and that cause. If \<open>l\<close>
  equals \<open>MaxMessageSize\<close>, \<open>readNext\<close> does not return that error, and it returns the
  payload when a slot is free and the payload has arrived.
\<close>

theorem C2_payload_length_limit:
  assumes "0 \<le> MaxMessageSize cfg" and "MaxMessageSize cfg < 2 ^ 63"
      and "readNextHeader (input mp) = Inr (chID, tag, r)"
      and "ReadUvarint r = Inr (l, r')"
  shows "(MaxMessageSize cfg < int (unat l) \<longrightarrow>
            readNext cfg (slot (env k)) (mp\<lparr>input := r\<rparr>)
              = Err ErrMessageSizeTooLarge (mp\<lparr>input := r'\<rparr>) \<and>
            handleIncoming_round cfg (env k) mp
              = Return (mp\<lparr>input := r', shutdownErr := Some ErrMessageSizeTooLarge\<rparr>) \<and>
            (\<exists>mp'. handleIncoming_loop cfg env k mp = Some (Finished mp') \<and>
                   shutdownErr mp' = Some ErrMessageSizeTooLarge \<and>
                   closed mp' \<and> shutdown mp' \<and> channels mp' = None))
         \<and> (int (unat l) = MaxMessageSize cfg \<longrightarrow>
            (\<forall>mp'. readNext cfg (slot (env k)) (mp\<lparr>input := r\<rparr>) \<noteq> Err ErrMessageSizeTooLarge mp') \<and>
            (l \<noteq> 0 \<and> slot (env k) = SelSend \<and> bufIn mp < bufIn_cap mp \<and> unat l \<le> length r' \<longrightarrow>
               readNext cfg (slot (env k)) (mp\<lparr>input := r\<rparr>)
                 = Ok (take (unat l) r') (mp\<lparr>input := drop (unat l) r', bufIn := bufIn mp + 1\<rparr>)))"
proof (intro conjI impI allI)
  assume big: "MaxMessageSize cfg < int (unat l)"
  then have w: "(word_of_int (MaxMessageSize cfg) :: uint64) < l"
    using limit_less [OF assms(1,2)] by simp
  have i: "ReadUvarint (input (mp\<lparr>input := r\<rparr>)) = Inr (l, r')" using assms(4) by simp
  show rn: "readNext cfg (slot (env k)) (mp\<lparr>input := r\<rparr>)
      = Err ErrMessageSizeTooLarge (mp\<lparr>input := r'\<rparr>)"
    using readNext_too_large [OF i w] by simp
  show rd: "handleIncoming_round cfg (env k) mp
      = Return (mp\<lparr>input := r', shutdownErr := Some ErrMessageSizeTooLarge\<rparr>)"
    using assms(3) rn by (simp add: handleIncoming_round_def)
  show "\<exists>mp'. handleIncoming_loop cfg env k mp = Some (Finished mp') \<and>
      shutdownErr mp' = Some ErrMessageSizeTooLarge \<and>
      closed mp' \<and> shutdown mp' \<and> channels mp' = None"
    using loop_Return_fields [of cfg env k mp _ ErrMessageSizeTooLarge] rd by auto
next
  fix mp'
  assume eq: "int (unat l) = MaxMessageSize cfg"
  then have w: "\<not> (word_of_int (MaxMessageSize cfg) :: uint64) < l"
    using limit_less [OF assms(1,2)] by simp
  have i: "ReadUvarint (input (mp\<lparr>input := r\<rparr>)) = Inr (l, r')" using assms(4) by simp
  show "readNext cfg (slot (env k)) (mp\<lparr>input := r\<rparr>) \<noteq> Err ErrMessageSizeTooLarge mp'"
    by (rule readNext_not_too_large [OF i w])
next
  assume eq: "int (unat l) = MaxMessageSize cfg"
    and ok: "l \<noteq> 0 \<and> slot (env k) = SelSend \<and> bufIn mp < bufIn_cap mp \<and> unat l \<le> length r'"
  have w: "\<not> (word_of_int (MaxMessageSize cfg) :: uint64) < l"
    using eq limit_less [OF assms(1,2)] by simp
  have s: "sint l = int (unat l)"
    using sint_small [of l "MaxMessageSize cfg"] eq assms(2) by simp
  have i: "ReadUvarint (input (mp\<lparr>input := r\<rparr>)) = Inr (l, r')" using assms(4) by simp
  show "readNext cfg (slot (env k)) (mp\<lparr>input := r\<rparr>)
      = Ok (take (unat l) r') (mp\<lparr>input := drop (unat l) r', bufIn := bufIn mp + 1\<rparr>)"
    using readNext_accept [OF i w _ s, of ] ok by simp
qed

text \<open>
  With the declared limit of \<open>2 ^ 20\<close>: a frame declaring \<open>2 ^ 20 + 1\<close> bytes ends the
  session, and a payload of \<open>2 ^ 20\<close> bytes is read.
\<close>

theorem C2_payload_length_limit_witness:
  "handleIncoming_round default_config (always SelSend SelSend SelSend 0) (fresh_session [2, 129, 128, 64])
     = Return ((fresh_session [])\<lparr>shutdownErr := Some ErrMessageSizeTooLarge\<rparr>)
   \<and> (\<exists>mp'. handleIncoming_loop default_config (always SelSend SelSend SelSend) 0
                (fresh_session [2, 129, 128, 64]) = Some (Finished mp') \<and>
              shutdownErr mp' = Some ErrMessageSizeTooLarge \<and> closed mp' \<and> shutdown mp' \<and>
              channels mp' = None)
   \<and> readNext default_config SelSend (fresh_session ([128, 128, 64] @ replicate (2 ^ 20) 7 @ [9]))
       = Ok (replicate (2 ^ 20) 7) ((fresh_session [9])\<lparr>bufIn := 1\<rparr>)"
proof -
  let ?env = "always SelSend SelSend SelSend"
  have c1: "0 \<le> MaxMessageSize default_config" and c2: "MaxMessageSize default_config < 2 ^ 63"
    by (simp_all add: default_config_def)
  have h1: "readNextHeader (input (fresh_session [2, 129, 128, 64])) = Inr (0, 2, [129, 128, 64])"
    by (simp add: fresh_session_def read_defs)
  have l1: "ReadUvarint [129, 128, 64] = Inr (2 ^ 20 + 1, [])"
    by (simp add: read_defs)
  have big: "MaxMessageSize default_config < int (unat (2 ^ 20 + 1 :: uint64))"
    by (simp add: default_config_def)
  let ?p = "replicate (2 ^ 20) (7::byte) @ [9]"
  have h2: "readNextHeader (input (fresh_session (2 # [128, 128, 64] @ ?p)))
      = Inr (0, 2, [128, 128, 64] @ ?p)"
    by (simp add: fresh_session_def read_defs)
  have l2: "ReadUvarint ([128, 128, 64] @ ?p) = Inr (2 ^ 20, ?p)"
    by (simp add: read_defs)
  have eq: "int (unat (2 ^ 20 :: uint64)) = MaxMessageSize default_config"
    by (simp add: default_config_def)
  have ok: "(2 ^ 20 :: uint64) \<noteq> 0 \<and> slot (?env 0) = SelSend \<and>
      bufIn (fresh_session (2 # [128, 128, 64] @ ?p)) < bufIn_cap (fresh_session (2 # [128, 128, 64] @ ?p)) \<and>
      unat (2 ^ 20 :: uint64) \<le> length ?p"
    by (simp add: always_def fresh_session_def)
  from C2_payload_length_limit [OF c1 c2 h1 l1, of ?env 0] big
  have a: "handleIncoming_round default_config (?env 0) (fresh_session [2, 129, 128, 64])
      = Return ((fresh_session [2, 129, 128, 64])\<lparr>input := [], shutdownErr := Some ErrMessageSizeTooLarge\<rparr>)"
    and b: "\<exists>mp'. handleIncoming_loop default_config ?env 0 (fresh_session [2, 129, 128, 64])
        = Some (Finished mp') \<and> shutdownErr mp' = Some ErrMessageSizeTooLarge \<and>
        closed mp' \<and> shutdown mp' \<and> channels mp' = None"
    by blast+
  from C2_payload_length_limit [OF c1 c2 h2 l2, of ?env 0] eq ok
  have c: "readNext default_config (slot (?env 0))
        ((fresh_session (2 # [128, 128, 64] @ ?p))\<lparr>input := [128, 128, 64] @ ?p\<rparr>)
      = Ok (take (unat (2 ^ 20 :: uint64)) ?p)
          ((fresh_session (2 # [128, 128, 64] @ ?p))\<lparr>input := drop (unat (2 ^ 20 :: uint64)) ?p,
             bufIn := bufIn (fresh_session (2 # [128, 128, 64] @ ?p)) + 1\<rparr>)"
    by blast
  show ?thesis
    using a b c by (simp add: fresh_session_def always_def)
qed

section \<open>A NewStream frame for a live stream\<close>

text \<open>
  Claim C8. When the round reads a NewStream frame whose key is in the map, it stores
  \<open>ErrInvalidState\<close> as the shutdown cause and returns, the map and the streams being
  as they were after the payload was read: no stream is created or replaced.
  \<open>handleIncoming\<close> then ends in \<open>cleanup\<close>, with the session closed and that cause.
\<close>

theorem C8_NewStream_for_live_stream:
  assumes "readNextHeader (input mp) = Inr (chID, tag, r)"
      and "round_tag tag = newStreamTag"
      and "readNext cfg (slot (env k)) (mp\<lparr>input := r\<rparr>) = Ok b mp1"
      and "lookup_channel mp1 (frame_key chID tag) = Some s"
  shows "handleIncoming_round cfg (env k) mp = Return (mp1\<lparr>shutdownErr := Some ErrInvalidState\<rparr>)
         \<and> (\<exists>mp'. handleIncoming_loop cfg env k mp = Some (Finished mp') \<and>
                  shutdownErr mp' = Some ErrInvalidState \<and> closed mp' \<and> shutdown mp' \<and>
                  channels mp' = None \<and> length (heap mp') = length (heap mp1))"
proof -
  have rd: "handleIncoming_round cfg (env k) mp = Return (mp1\<lparr>shutdownErr := Some ErrInvalidState\<rparr>)"
    using assms by (simp add: handleIncoming_round_def dispatch_def)
  from loop_Return_fields [of cfg env k mp _ ErrInvalidState] rd
  have "\<exists>mp'. handleIncoming_loop cfg env k mp = Some (Finished mp') \<and>
      shutdownErr mp' = Some ErrInvalidState \<and> closed mp' \<and> shutdown mp' \<and>
      channels mp' = None \<and> length (heap mp') = length (heap mp1)"
    by auto
  with rd show ?thesis by blast
qed

text \<open>
  The peer opens stream 0 a second time, with the name "b".
\<close>

theorem C8_NewStream_for_live_stream_witness:
  "handleIncoming_round default_config (always SelSend SelSend SelSend 0) (live_session [0, 1, 98] [] 0)
     = Return ((live_session [] [] 1)\<lparr>shutdownErr := Some ErrInvalidState\<rparr>)
   \<and> (\<exists>mp'. handleIncoming_loop default_config (always SelSend SelSend SelSend) 0
                (live_session [0, 1, 98] [] 0) = Some (Finished mp') \<and>
              shutdownErr mp' = Some ErrInvalidState \<and> closed mp' \<and> shutdown mp' \<and>
              channels mp' = None \<and> length (heap mp') = 1)"
proof -
  let ?env = "always SelSend SelSend SelSend"
  have h1: "readNextHeader (input (live_session [0, 1, 98] [] 0)) = Inr (0, 0, [1, 98])"
    by (simp add: round_defs read_defs)
  have h2: "round_tag 0 = newStreamTag" by (simp add: round_defs)
  have h3: "readNext default_config (slot (?env 0)) ((live_session [0, 1, 98] [] 0)\<lparr>input := [1, 98]\<rparr>)
      = Ok [98] (live_session [] [] 1)"
    by (simp add: round_defs read_defs default_config_def)
  have h4: "lookup_channel (live_session [] [] 1) (frame_key 0 0) = Some 0"
    by (simp add: round_defs)
  show ?thesis
    using C8_NewStream_for_live_stream [where env = ?env and k = 0, OF h1 h2 h3 h4]
    by (simp add: round_defs)
qed

section \<open>A Close frame for a live stream\<close>

text \<open>
  Claim C6, as amended. When the round reads a Close frame with an empty payload whose
  key is in the map, for a stream whose data channel is open, it goes on with the key
  removed from the map and the stream's data channel closed, and with nothing else
  changed but the input read: the other fields of the stream (cancel signals, deadlines,
  queue) are as before, and no inbound slot is released, the count of slots in use being
  what it was (an empty payload holds no slot).
\<close>

theorem C6_Close_of_live_stream:
  assumes "readNextHeader (input mp) = Inr (chID, tag, r)"
      and "round_tag tag = closeTag"
      and "ReadUvarint r = Inr (0, r')"
      and "channels mp = Some m"
      and "map_of m (frame_key chID tag) = Some s"
      and "s < length (heap mp)"
      and "\<not> dataIn_closed (heap mp ! s)"
  shows "\<exists>mp'. handleIncoming_round cfg env mp = Continue mp' \<and>
           mp' = mp\<lparr>input := r', channels := Some (AList.delete (frame_key chID tag) m),
                     heap := (heap mp)[s := (heap mp ! s)\<lparr>dataIn_closed := True\<rparr>]\<rparr> \<and>
           lookup_channel mp' (frame_key chID tag) = None \<and>
           heap mp' ! s = (heap mp ! s)\<lparr>dataIn_closed := True\<rparr> \<and>
           bufIn mp' = bufIn mp"
proof -
  have i: "ReadUvarint (input (mp\<lparr>input := r\<rparr>)) = Inr (0, r')" using assms(3) by simp
  have rn: "readNext cfg (slot env) (mp\<lparr>input := r\<rparr>) = Ok [] (mp\<lparr>input := r'\<rparr>)"
    using readNext_zero [OF i] by simp
  have t: "round_tag tag \<noteq> newStreamTag" "round_tag tag \<noteq> resetTag"
    using assms(2) by (simp_all add: closeTag_def newStreamTag_def resetTag_def)
  let ?mp' = "mp\<lparr>input := r', channels := Some (AList.delete (frame_key chID tag) m),
      heap := (heap mp)[s := (heap mp ! s)\<lparr>dataIn_closed := True\<rparr>]\<rparr>"
  have rd: "handleIncoming_round cfg env mp = Continue ?mp'"
    using assms(1,2,4-7) rn t
    by (simp add: handleIncoming_round_def dispatch_def lookup_channel_def update_stream_def)
  have l: "lookup_channel ?mp' (frame_key chID tag) = None"
    by (simp add: lookup_channel_def delete_conv')
  have h: "heap ?mp' ! s = (heap mp ! s)\<lparr>dataIn_closed := True\<rparr>"
    using assms(6) by simp
  show ?thesis using rd l h by simp
qed

text \<open>
  A Close frame for the peer's stream 0, which holds one chunk and one slot.
\<close>

theorem C6_Close_of_live_stream_witness:
  "handleIncoming_round default_config (always SelSend SelSend SelSend 0) (live_session [4, 0, 9] [[1]] 1)
     = Continue ((fresh_session [9])\<lparr>channels := Some [], heap := [(peer_stream [[1]])\<lparr>dataIn_closed := True\<rparr>],
                                     bufIn := 1\<rparr>)"
proof -
  let ?mp = "live_session [4, 0, 9] [[1]] 1"
  have h1: "readNextHeader (input ?mp) = Inr (0, 4, [0, 9])"
    by (simp add: round_defs read_defs)
  have h2: "round_tag 4 = closeTag" by (simp add: round_defs)
  have h3: "ReadUvarint [0, 9] = Inr (0, [9])" by (simp add: read_defs)
  have h4: "channels ?mp = Some [(\<lparr>id_num = 0, initiator = False\<rparr>, 0)]" by (simp add: round_defs)
  have h5: "map_of [(\<lparr>id_num = 0, initiator = False\<rparr>, 0::nat)] (frame_key 0 4) = Some 0"
    by (simp add: round_defs)
  have h6: "0 < length (heap ?mp)" by (simp add: round_defs)
  have h7: "\<not> dataIn_closed (heap ?mp ! 0)" by (simp add: round_defs)
  show ?thesis
    using C6_Close_of_live_stream [OF h1 h2 h3 h4 h5 h6 h7, of default_config "always SelSend SelSend SelSend 0"]
    by (simp add: round_defs)
qed

text \<open>
  Claim C6 as stated fails: the Close branch releases no slot. With an empty payload
  the one slot in use before the round is in use after it, where a release would leave
  none; with a payload of one byte the slot \<open>readNext\<close> took for it is still in use
  after the round.
\<close>

theorem C6_counterexample:
  "(\<exists>mp'. handleIncoming_round default_config (always SelSend SelSend SelSend 0) (live_session [4, 0] [[1]] 1)
            = Continue mp' \<and>
          bufIn (live_session [4, 0] [[1]] 1) = 1 \<and> bufIn mp' = 1 \<and>
          (\<exists>mp''. putBufferInbound mp' = Ok () mp'' \<and> bufIn mp'' = 0))
   \<and> (\<exists>mp'. handleIncoming_round default_config (always SelSend SelSend SelSend 0) (live_session [4, 1, 9] [] 0)
            = Continue mp' \<and>
          bufIn (live_session [4, 1, 9] [] 0) = 0 \<and> bufIn mp' = 1)"
  by (simp add: round_defs read_defs default_config_def)

section \<open>A Message frame of length 0\<close>

text \<open>
  Claim C9. For a Message frame with declared length 0 whose key is in the map,
  \<open>readNext\<close> returns the empty payload and leaves the slots as they were, and when
  the stream's queue takes the payload the round goes on with the empty chunk at the end
  of the queue; a reader of a queue that was empty then reads a chunk of length 0, not an
  error.
\<close>

theorem C9_zero_length_Message:
  assumes "readNextHeader (input mp) = Inr (chID, tag, r)"
      and "round_tag tag = messageTag"
      and "ReadUvarint r = Inr (0, r')"
      and "lookup_channel mp (frame_key chID tag) = Some s"
      and "s < length (heap mp)"
      and "handoff env = SelSend"
      and "\<not> dataIn_closed (heap mp ! s)"
      and "length (dataIn (heap mp ! s)) < dataIn_cap (heap mp ! s)"
  shows "\<exists>mp'. readNext cfg (slot env) (mp\<lparr>input := r\<rparr>) = Ok [] (mp\<lparr>input := r'\<rparr>) \<and>
           handleIncoming_round cfg env mp = Continue mp' \<and>
           mp' = mp\<lparr>input := r',
                     heap := (heap mp)[s := (heap mp ! s)\<lparr>dataIn := dataIn (heap mp ! s) @ [[]]\<rparr>]\<rparr> \<and>
           dataIn (heap mp' ! s) = dataIn (heap mp ! s) @ [[]] \<and>
           bufIn mp' = bufIn mp \<and>
           (dataIn (heap mp ! s) = [] \<longrightarrow> (\<exists>mp''. Read_chunk s mp' = Ok [] mp''))"
proof -
  have i: "ReadUvarint (input (mp\<lparr>input := r\<rparr>)) = Inr (0, r')" using assms(3) by simp
  have rn: "readNext cfg (slot env) (mp\<lparr>input := r\<rparr>) = Ok [] (mp\<lparr>input := r'\<rparr>)"
    using readNext_zero [OF i] by simp
  have t: "round_tag tag \<noteq> newStreamTag" "round_tag tag \<noteq> resetTag" "round_tag tag \<noteq> closeTag"
    using assms(2) by (simp_all add: messageTag_def closeTag_def newStreamTag_def resetTag_def)
  let ?mp' = "mp\<lparr>input := r',
      heap := (heap mp)[s := (heap mp ! s)\<lparr>dataIn := dataIn (heap mp ! s) @ [[]]\<rparr>]\<rparr>"
  have l: "lookup_channel (mp\<lparr>input := r'\<rparr>) (frame_key chID tag) = Some s"
    using assms(4) by (simp add: lookup_channel_def)
  have rd: "handleIncoming_round cfg env mp = Continue ?mp'"
    using assms(1,2,5-8) rn t l
    by (simp add: handleIncoming_round_def dispatch_def hand_off_def update_stream_def Let_def)
  have q: "dataIn (heap ?mp' ! s) = dataIn (heap mp ! s) @ [[]]"
    using assms(5) by simp
  have rc: "dataIn (heap mp ! s) = [] \<longrightarrow> (\<exists>mp''. Read_chunk s ?mp' = Ok [] mp'')"
    using assms(5) by (simp add: Read_chunk_def)
  show ?thesis using rn rd q rc by simp
qed

text \<open>
  A Message frame of length 0 for the peer's stream 0, whose queue is empty.
\<close>

theorem C9_zero_length_Message_witness:
  "readNext default_config SelSend (live_session [0, 9] [] 0) = Ok [] (live_session [9] [] 0)
   \<and> handleIncoming_round default_config (always SelSend SelSend SelSend 0) (live_session [2, 0, 9] [] 0)
       = Continue (live_session [9] [[]] 0)
   \<and> (\<exists>mp''. Read_chunk 0 (live_session [9] [[]] 0) = Ok [] mp'')"
proof -
  let ?mp = "live_session [2, 0, 9] [] 0"
  let ?env = "always SelSend SelSend SelSend 0"
  have h1: "readNextHeader (input ?mp) = Inr (0, 2, [0, 9])"
    by (simp add: round_defs read_defs)
  have h2: "round_tag 2 = messageTag" by (simp add: round_defs)
  have h3: "ReadUvarint [0, 9] = Inr (0, [9])" by (simp add: read_defs)
  have h4: "lookup_channel ?mp (frame_key 0 2) = Some 0" by (simp add: round_defs)
  have h5: "0 < length (heap ?mp)" by (simp add: round_defs)
  have h6: "handoff ?env = SelSend" by (simp add: round_defs)
  have h7: "\<not> dataIn_closed (heap ?mp ! 0)" by (simp add: round_defs)
  have h8: "length (dataIn (heap ?mp ! 0)) < dataIn_cap (heap ?mp ! 0)" by (simp add: round_defs)
  show ?thesis
    using C9_zero_length_Message [OF h1 h2 h3 h4 h5 h6 h7 h8, of default_config]
    by (simp add: round_defs)
qed

section \<open>A hand-off that times out\<close>

text \<open>
  When the hand-off of a Message payload times out while an inbound slot is in use, as
  it is after a payload that is not empty, the round gives the slot back, resets the
  stream and goes on, the reader standing where the frame ended: the next frame is read
  by the next round, after the reset.
\<close>

lemma timeout_with_slot_resets_stream:
  assumes "readNextHeader (input mp) = Inr (chID, tag, r)"
      and "round_tag tag = messageTag"
      and "readNext cfg (slot env) (mp\<lparr>input := r\<rparr>) = Ok b mp1"
      and "lookup_channel mp1 (frame_key chID tag) = Some s"
      and "s < length (heap mp1)"
      and "handoff env = SelTimeout"
      and "0 < bufIn mp1"
  shows "handleIncoming_round cfg env mp = Continue (Reset s (mp1\<lparr>bufIn := bufIn mp1 - 1\<rparr>))
         \<and> input (Reset s (mp1\<lparr>bufIn := bufIn mp1 - 1\<rparr>)) = input mp1"
proof -
  have t: "round_tag tag \<noteq> newStreamTag" "round_tag tag \<noteq> resetTag" "round_tag tag \<noteq> closeTag"
    using assms(2) by (simp_all add: messageTag_def closeTag_def newStreamTag_def resetTag_def)
  have "handleIncoming_round cfg env mp = Continue (Reset s (mp1\<lparr>bufIn := bufIn mp1 - 1\<rparr>))"
    using assms t
    by (simp add: handleIncoming_round_def dispatch_def hand_off_def putBufferInbound_def)
  then show ?thesis by (simp add: Reset_input)
qed

text \<open>
  Claim C5 fails for a payload of length 0 when no inbound slot is in use: \<open>readNext\<close>
  took no slot for it, \<open>putBufferInbound\<close> waits for a token that only the receive loop
  itself could send, and the loop blocks before it resets the stream. A peer reaches this
  on a fresh session by opening a stream and sending it five Message frames of length 0
  that the user does not read: four fill the queue, the hand-off of the fifth times out.
\<close>

theorem C5_zero_length_time_out_blocks:
  "handleIncoming default_config (deliver_then_time_out 5)
       (fresh_session [0, 1, 97, 2, 0, 2, 0, 2, 0, 2, 0, 2, 0]) = Some Hung
   \<and> handleIncoming_round default_config (deliver_then_time_out 5 5)
       (live_session [2, 0] [[], [], [], []] 0) = RoundBlocked"
  by (simp add: handleIncoming_def handleIncoming_loop.simps round_defs read_defs
      deliver_then_time_out_def default_config_def)

end
